theory Spec2Isabelle
  imports Main "HOL-Library.AList"
begin

section \<open>The elevator controller of \<open>FAhrstuhl.js\<close>\<close>

text \<open>
  The development embeds the class \<open>Elevator\<close> of \<open>src/2025-10-15/FAhrstuhl.js\<close>.
  Conventions of the embedding:
  \<^item> floors are JavaScript numbers with integer values; they are modelled as \<open>int\<close>
    (the arithmetic of the source is adding or subtracting 1 and comparison, exact on
    the safe-integer range of a double);
  \<^item> an argument that arrives from a caller is a \<open>js_value\<close>, so that the check
    \<open>Number.isInteger\<close> and the comparison \<open>direction === 'up'\<close> are branches of the model;
  \<^item> a JavaScript \<open>Set\<close> is a list in insertion order, a \<open>Map\<close> an association list in
    insertion order (both iterate in that order in the source);
  \<^item> console output is not part of the state and is left out, but building a message
    from an argument of the caller can throw, and then the call throws: a call returns
    \<open>Inr\<close> of the state it leaves, or \<open>Inl\<close> of the exception and the state it leaves;
  \<^item> \<open>sleep\<close> is a suspension point of the control loop, at which calls of other
    operations may interleave, \<open>start\<close> among them.
\<close>

subsection \<open>Values\<close>

datatype js_value = JInt int | JStr string | JSymbol | JBadObject | JOther
  \<comment> \<open>\<open>JInt n\<close>: a number whose value is the integer \<open>n\<close>; \<open>JStr\<close>: a string;
      \<open>JSymbol\<close>: a Symbol; \<open>JBadObject\<close>: an object whose conversion to a string
      throws; \<open>JOther\<close>: any other value (a fractional number, NaN, undefined, null, a
      boolean, an object that converts to a string)\<close>

text \<open>
  A template literal converts the value it interpolates to a string. The conversion
  throws a TypeError for a Symbol, and for an object it throws what the object's own
  conversion throws.
\<close>

datatype error = TypeError | ConversionError

fun toStringThrows :: "js_value \<Rightarrow> error option" where
  "toStringThrows JSymbol = Some TypeError"
| "toStringThrows JBadObject = Some ConversionError"
| "toStringThrows v = None"

datatype direction = Up | Down | Idle

text \<open>\<open>Set.prototype.add\<close> and \<open>Set.prototype.delete\<close> on a list without duplicates.\<close>

definition Set_add :: "'a \<Rightarrow> 'a list \<Rightarrow> 'a list" where
  "Set_add x xs = (if x \<in> set xs then xs else xs @ [x])"

definition Set_delete :: "'a \<Rightarrow> 'a list \<Rightarrow> 'a list" where
  "Set_delete x xs = removeAll x xs"

subsection \<open>The object\<close>

record elevator =
  name :: string
  minFloor :: int
  maxFloor :: int
  currentFloor :: int
  direction :: direction
  doorsOpen :: bool
  requests :: "int list"
  calls :: "(int \<times> direction list) list"
  travelTimeMs :: int
  doorOperateMs :: int
  doorDwellMs :: int
  running :: bool

text \<open>The argument object of the constructor; an absent property takes its default.\<close>

record config =
  cfg_minFloor :: "int option"
  cfg_maxFloor :: "int option"
  cfg_name :: "string option"
  cfg_travelTimeMs :: "int option"
  cfg_doorOperateMs :: "int option"
  cfg_doorDwellMs :: "int option"

definition dflt :: "'a \<Rightarrow> 'a option \<Rightarrow> 'a" where
  "dflt d v = (case v of None \<Rightarrow> d | Some x \<Rightarrow> x)"

definition constructor :: "config \<Rightarrow> elevator" where
  "constructor c =
     \<lparr> name = dflt ''Elevator'' (cfg_name c),
       minFloor = dflt 1 (cfg_minFloor c),
       maxFloor = dflt 10 (cfg_maxFloor c),
       currentFloor = dflt 1 (cfg_minFloor c),
       direction = Idle,
       doorsOpen = False,
       requests = [],
       calls = [],
       travelTimeMs = dflt 400 (cfg_travelTimeMs c),
       doorOperateMs = dflt 700 (cfg_doorOperateMs c),
       doorDwellMs = dflt 0 (cfg_doorDwellMs c),
       running = False \<rparr>"

definition floors :: "int \<Rightarrow> int \<Rightarrow> config" where
  "floors lo hi =
     \<lparr> cfg_minFloor = Some lo, cfg_maxFloor = Some hi, cfg_name = None,
       cfg_travelTimeMs = None, cfg_doorOperateMs = None, cfg_doorDwellMs = None \<rparr>"

subsection \<open>Demand registration\<close>

definition validFloor :: "elevator \<Rightarrow> js_value \<Rightarrow> bool" where
  "validFloor s v =
     (case v of JInt n \<Rightarrow> minFloor s \<le> n \<and> n \<le> maxFloor s | _ \<Rightarrow> False)"

type_synonym result = "(error \<times> elevator) + elevator"

text \<open>
  The rejection of an argument, lines 43 to 46 and 54 to 57: the message of the warning
  interpolates the argument, then the method returns.
\<close>

definition warn :: "js_value \<Rightarrow> elevator \<Rightarrow> result" where
  "warn v s = (case toStringThrows v of Some e \<Rightarrow> Inl (e, s) | None \<Rightarrow> Inr s)"

fun pressFloor :: "js_value \<Rightarrow> elevator \<Rightarrow> result" where
  "pressFloor (JInt n) s =
     (if \<not> validFloor s (JInt n) then warn (JInt n) s
      else Inr (s\<lparr>requests := Set_add n (requests s)\<rparr>))"
| "pressFloor v s = warn v s"
  \<comment> \<open>\<open>Number.isInteger\<close> fails, so \<open>_validFloor\<close> does\<close>

definition normalizeDirection :: "js_value \<Rightarrow> direction" where
  "normalizeDirection d = (if d = JStr ''up'' then Up else Down)"

fun callFrom :: "js_value \<Rightarrow> js_value \<Rightarrow> elevator \<Rightarrow> result" where
  "callFrom (JInt n) d s =
     (let dir = normalizeDirection d in
      if \<not> validFloor s (JInt n) then warn (JInt n) s
      else if n = maxFloor s \<and> dir = Up then Inr s
      else if n = minFloor s \<and> dir = Down then Inr s
      else
        let cs1 = (if map_of (calls s) n \<noteq> None then calls s
                   else AList.update n [] (calls s));
            cs2 = AList.map_entry n (Set_add dir) cs1
        in Inr (s\<lparr>calls := cs2\<rparr>))"
| "callFrom v d s = warn v s"
  \<comment> \<open>\<open>Number.isInteger\<close> fails, so \<open>_validFloor\<close> does\<close>

text \<open>
  The messages of the other branches interpolate the floor only where it is an integer,
  and the direction only after it has been normalised, so they do not throw.
\<close>

text \<open>A caller that calls a method \<open>n\<close> times in a row; an exception ends the sequence.\<close>

fun call_n :: "nat \<Rightarrow> (elevator \<Rightarrow> result) \<Rightarrow> elevator \<Rightarrow> result" where
  "call_n 0 f s = Inr s"
| "call_n (Suc n) f s = (case f s of Inl x \<Rightarrow> Inl x | Inr s' \<Rightarrow> call_n n f s')"

definition stop :: "elevator \<Rightarrow> elevator" where
  "stop s = s\<lparr>running := False\<rparr>"

subsection \<open>Direction decision\<close>

definition targets :: "elevator \<Rightarrow> int list" where
  "targets s = fold Set_add (map fst (calls s)) (requests s)"

definition decideDirection :: "elevator \<Rightarrow> direction" where
  "decideDirection s =
     (if requests s = [] \<and> calls s = [] then Idle
      else
        let targetsArr = targets s;
            above = filter (\<lambda>f. f > currentFloor s) targetsArr;
            below = filter (\<lambda>f. f < currentFloor s) targetsArr
        in
          if direction s = Up then
            (if above \<noteq> [] then Up else if below \<noteq> [] then Down else Idle)
          else if direction s = Down then
            (if below \<noteq> [] then Down else if above \<noteq> [] then Up else Idle)
          else
            (case above of
               [] \<Rightarrow> (case below of [] \<Rightarrow> Idle | b # bs \<Rightarrow> Down)
             | a # as \<Rightarrow>
                 (case below of
                    [] \<Rightarrow> Up
                  | b # bs \<Rightarrow>
                      let nearestAbove = fold min as a - currentFloor s;
                          nearestBelow = currentFloor s - fold max bs b
                      in if nearestAbove \<le> nearestBelow then Up else Down)))"

subsection \<open>Doors\<close>

text \<open>Lines 81 to 84: the panel request of the current floor is fulfilled.\<close>

definition fulfilRequest :: "elevator \<Rightarrow> elevator" where
  "fulfilRequest s =
     (if currentFloor s \<in> set (requests s)
      then s\<lparr>requests := Set_delete (currentFloor s) (requests s)\<rparr>
      else s)"

text \<open>
  Lines 87 to 103. \<open>callsHere\<close> is the set object stored in the map, so deleting from it
  changes the entry in place.
\<close>

definition fulfilCalls :: "elevator \<Rightarrow> elevator" where
  "fulfilCalls s =
     (case map_of (calls s) (currentFloor s) of
        None \<Rightarrow> s
      | Some callsHere \<Rightarrow>
          if callsHere = [] then s
          else if direction s = Idle then
            s\<lparr>calls := AList.delete (currentFloor s) (calls s)\<rparr>
          else
            let callsHere' =
                  (if direction s \<in> set callsHere
                   then Set_delete (direction s) callsHere else callsHere);
                cs1 = AList.update (currentFloor s) callsHere' (calls s)
            in if callsHere' = []
               then s\<lparr>calls := AList.delete (currentFloor s) cs1\<rparr>
               else s\<lparr>calls := cs1\<rparr>)"

text \<open>Lines 78 to 103: what happens when the transition to Open completes.\<close>

definition openDoors_opened :: "elevator \<Rightarrow> elevator" where
  "openDoors_opened s = fulfilCalls (fulfilRequest (s\<lparr>doorsOpen := True\<rparr>))"

text \<open>
  The methods run to completion, with nothing interleaved at their suspension points.
\<close>

definition closeDoors :: "elevator \<Rightarrow> elevator" where
  "closeDoors s = (if \<not> doorsOpen s then s else s\<lparr>doorsOpen := False\<rparr>)"

definition openDoors :: "elevator \<Rightarrow> elevator" where
  "openDoors s = (if doorsOpen s then s else closeDoors (openDoors_opened s))"

subsection \<open>Movement and the control loop\<close>

definition targetFloor :: "elevator \<Rightarrow> int" where
  "targetFloor s =
     (if direction s = Up then currentFloor s + 1 else currentFloor s - 1)"

definition shouldOpen :: "elevator \<Rightarrow> bool" where
  "shouldOpen s =
     (let shouldOpenForRequest = currentFloor s \<in> set (requests s);
          shouldOpenForCall =
            (case map_of (calls s) (currentFloor s) of
               None \<Rightarrow> False
             | Some callsHere \<Rightarrow> direction s \<in> set callsHere)
      in shouldOpenForRequest \<or> shouldOpenForCall)"

definition moveOneFloor :: "elevator \<Rightarrow> elevator" where
  "moveOneFloor s =
     (if doorsOpen s then s
      else if direction s = Idle then s
      else if \<not> validFloor s (JInt (targetFloor s)) then s\<lparr>direction := Idle\<rparr>
      else
        let s1 = s\<lparr>currentFloor := targetFloor s\<rparr>
        in if shouldOpen s1 then openDoors s1 else s1)"

text \<open>One pass through the body of the \<open>while\<close> loop of \<open>start\<close>.\<close>

definition loopBody :: "elevator \<Rightarrow> elevator" where
  "loopBody s =
     (let s1 = s\<lparr>direction := decideDirection s\<rparr>
      in if direction s1 = Idle then s1
         else moveOneFloor (if doorsOpen s1 then closeDoors s1 else s1))"

text \<open>
  The loop runs until \<open>stop\<close> clears the flag, which only a caller does; the fuel is the
  number of passes that are observed.
\<close>

fun whileRunning :: "nat \<Rightarrow> elevator \<Rightarrow> elevator" where
  "whileRunning 0 s = s"
| "whileRunning (Suc n) s = (if running s then whileRunning n (loopBody s) else s)"

definition start :: "nat \<Rightarrow> elevator \<Rightarrow> elevator" where
  "start n s = (if running s then s else whileRunning n (s\<lparr>running := True\<rparr>))"

subsection \<open>The control loop with its suspension points\<close>

text \<open>
  Every \<open>await this._sleep(...)\<close> suspends the loop; a location names the sleep the
  loop is suspended in. \<open>closeDoors\<close> is awaited from \<open>start\<close> (then \<open>_moveOneFloor\<close>
  follows) and from \<open>openDoors\<close> (then control returns to the loop test). At
  \<open>LoopTest\<close> the loop is about to test \<open>_running\<close>, after \<open>start\<close> has begun it or
  after the \<open>await\<close> that ends a pass; at \<open>Exited\<close> it has returned.
\<close>

datatype cont = ThenMove | ThenLoop

datatype pc =
    LoopTest
  | IdleSleep
  | TravelSleep int
  | OpenSleep
  | DwellSleep
  | CloseSleep cont
  | Exited

type_synonym conf = "pc \<times> elevator"

definition openDoors_enter :: "elevator \<Rightarrow> conf" where
  "openDoors_enter s = (if doorsOpen s then (LoopTest, s) else (OpenSleep, s))"

definition moveOneFloor_enter :: "elevator \<Rightarrow> conf" where
  "moveOneFloor_enter s =
     (if doorsOpen s then (LoopTest, s)
      else if direction s = Idle then (LoopTest, s)
      else if \<not> validFloor s (JInt (targetFloor s)) then (LoopTest, s\<lparr>direction := Idle\<rparr>)
      else (TravelSleep (targetFloor s), s))"

definition moveOneFloor_arrive :: "int \<Rightarrow> elevator \<Rightarrow> conf" where
  "moveOneFloor_arrive t s =
     (let s1 = s\<lparr>currentFloor := t\<rparr>
      in if shouldOpen s1 then openDoors_enter s1 else (LoopTest, s1))"

definition after_close :: "cont \<Rightarrow> elevator \<Rightarrow> conf" where
  "after_close k s = (case k of ThenMove \<Rightarrow> moveOneFloor_enter s | ThenLoop \<Rightarrow> (LoopTest, s))"

definition closeDoors_enter :: "cont \<Rightarrow> elevator \<Rightarrow> conf" where
  "closeDoors_enter k s = (if \<not> doorsOpen s then after_close k s else (CloseSleep k, s))"

definition loop_test :: "elevator \<Rightarrow> conf" where
  "loop_test s =
     (if \<not> running s then (Exited, s)
      else
        let s1 = s\<lparr>direction := decideDirection s\<rparr>
        in if direction s1 = Idle then (IdleSleep, s1)
           else if doorsOpen s1 then closeDoors_enter ThenMove s1
           else moveOneFloor_enter s1)"

fun loop_step :: "conf \<Rightarrow> conf" where
  "loop_step (LoopTest, s) = loop_test s"
| "loop_step (IdleSleep, s) = (LoopTest, s)"
| "loop_step (TravelSleep t, s) = moveOneFloor_arrive t s"
| "loop_step (OpenSleep, s) =
     (let s1 = openDoors_opened s
      in if doorDwellMs s1 > 0 then (DwellSleep, s1) else closeDoors_enter ThenLoop s1)"
| "loop_step (DwellSleep, s) = closeDoors_enter ThenLoop s"
| "loop_step (CloseSleep k, s) = after_close k (s\<lparr>doorsOpen := False\<rparr>)"
| "loop_step (Exited, s) = (Exited, s)"

text \<open>
  Calls that arrive from outside while a loop is suspended. \<open>apply_event\<close> is the
  state the object is left in, whether the call returns or throws.
\<close>

datatype event = PressFloor js_value | CallFrom js_value js_value | Stop

definition state_of :: "result \<Rightarrow> elevator" where
  "state_of r = (case r of Inl (e, s) \<Rightarrow> s | Inr s \<Rightarrow> s)"

fun apply_event :: "event \<Rightarrow> elevator \<Rightarrow> elevator" where
  "apply_event (PressFloor v) s = state_of (pressFloor v s)"
| "apply_event (CallFrom v d) s = state_of (callFrom v d s)"
| "apply_event Stop s = stop s"

text \<open>
  The system is the object and the loops that are suspended on it, each at its own
  location. \<open>start\<close> (lines 185 and 186) tests only \<open>_running\<close>: on a running elevator
  it returns at once and is no step, otherwise it sets the flag and begins a loop, also
  when a loop that \<open>stop\<close> has stopped is still suspended. A step of the system: one of
  the loops resumes from its sleep, a caller registers demand or stops the loops, or
  \<open>start\<close> begins a loop.
\<close>

type_synonym sys = "pc list \<times> elevator"

inductive step :: "sys \<Rightarrow> sys \<Rightarrow> bool" where
  resume: "i < length ps \<Longrightarrow> ps ! i \<noteq> Exited \<Longrightarrow> loop_step (ps ! i, s) = (p', s') \<Longrightarrow>
     step (ps, s) (ps[i := p'], s')"
| extern: "step (ps, s) (ps, apply_event e s)"
| begin_loop: "\<not> running s \<Longrightarrow> step (ps, s) (ps @ [LoopTest], s\<lparr>running := True\<rparr>)"

inductive reachable :: "sys \<Rightarrow> bool" where
  init: "reachable ([], constructor c)"
| next_conf: "reachable cf \<Longrightarrow> step cf cf' \<Longrightarrow> reachable cf'"

subsection \<open>Observations used in the statements\<close>

text \<open>The pending hall calls, as pairs of a floor and a direction.\<close>

definition hall_calls :: "elevator \<Rightarrow> (int \<times> direction) set" where
  "hall_calls s = {(f, d). \<exists>ds. map_of (calls s) f = Some ds \<and> d \<in> set ds}"

text \<open>The floors with outstanding demand: panel requests and keys of the hall-call map.\<close>

definition demand_floors :: "elevator \<Rightarrow> int set" where
  "demand_floors s = set (requests s) \<union> fst ` set (calls s)"

text \<open>
  The four rules of the direction decision as the specification words them, over the set
  of demand floors: no demand gives Idle; moving Up continues while demand lies above,
  else turns Down when demand lies below; moving Down is symmetric; an idle car takes the
  side whose closest demand floor is fewer floors away, and Up on a tie.
\<close>

definition decide_spec :: "elevator \<Rightarrow> direction" where
  "decide_spec s =
     (let above = {f \<in> demand_floors s. currentFloor s < f};
          below = {f \<in> demand_floors s. f < currentFloor s}
      in if demand_floors s = {} then Idle
         else case direction s of
           Up \<Rightarrow> if above \<noteq> {} then Up else if below \<noteq> {} then Down else Idle
         | Down \<Rightarrow> if below \<noteq> {} then Down else if above \<noteq> {} then Up else Idle
         | Idle \<Rightarrow>
             if above = {} \<and> below = {} then Idle
             else if below = {} then Up
             else if above = {} then Down
             else if Min above - currentFloor s \<le> currentFloor s - Max below then Up
             else Down)"

text \<open>
  The range invariant: the current floor, the panel requests and the keys of the
  hall-call map lie within \<open>[minFloor, maxFloor]\<close>; for a suspended loop, the target
  of the hop in progress does too.
\<close>

definition in_range :: "elevator \<Rightarrow> bool" where
  "in_range s \<longleftrightarrow>
     minFloor s \<le> currentFloor s \<and> currentFloor s \<le> maxFloor s \<and>
     (\<forall>f \<in> set (requests s). minFloor s \<le> f \<and> f \<le> maxFloor s) \<and>
     (\<forall>f \<in> fst ` set (calls s). minFloor s \<le> f \<and> f \<le> maxFloor s)"

fun conf_in_range :: "conf \<Rightarrow> bool" where
  "conf_in_range (TravelSleep t, s) \<longleftrightarrow> in_range s \<and> minFloor s \<le> t \<and> t \<le> maxFloor s"
| "conf_in_range (p, s) \<longleftrightarrow> in_range s"

definition sys_in_range :: "sys \<Rightarrow> bool" where
  "sys_in_range cf \<longleftrightarrow>
     in_range (snd cf) \<and> (\<forall>p \<in> set (fst cf). conf_in_range (p, snd cf))"

text \<open>
  While a loop is suspended in the travel sleep the doors are closed; \<open>live\<close> are the
  loops that have not returned.
\<close>

fun travel_closed :: "conf \<Rightarrow> bool" where
  "travel_closed (TravelSleep t, s) \<longleftrightarrow> \<not> doorsOpen s"
| "travel_closed (p, s) \<longleftrightarrow> True"

definition all_travel_closed :: "sys \<Rightarrow> bool" where
  "all_travel_closed cf \<longleftrightarrow> (\<forall>p \<in> set (fst cf). travel_closed (p, snd cf))"

definition live :: "pc list \<Rightarrow> pc list" where
  "live ps = filter (\<lambda>p. p \<noteq> Exited) ps"

text \<open>The hall-call map holds no empty set of directions.\<close>

definition calls_wf :: "elevator \<Rightarrow> bool" where
  "calls_wf s \<longleftrightarrow> [] \<notin> snd ` set (calls s)"

text \<open>The loop, left alone, gets from one configuration to another.\<close>

definition runs_to :: "conf \<Rightarrow> conf \<Rightarrow> bool" where
  "runs_to cf cf' \<longleftrightarrow> (\<exists>n. (loop_step ^^ n) cf = cf')"

section \<open>Properties\<close>

subsection \<open>Containers\<close>

lemma Set_add_set [simp]: "set (Set_add x xs) = insert x (set xs)"
  by (auto simp: Set_add_def)

lemma Set_add_idem [simp]: "Set_add x (Set_add x xs) = Set_add x xs"
  by (simp add: Set_add_def)

lemma set_fold_Set_add: "set (fold Set_add ys xs) = set xs \<union> set ys"
  by (induction ys arbitrary: xs) auto

lemma map_entry_same: "map_of al k = Some v \<Longrightarrow> f v = v \<Longrightarrow> AList.map_entry k f al = al"
  by (induction al) (auto split: if_splits)

lemma map_entry_None: "map_of al k = None \<Longrightarrow> AList.map_entry k f al = al"
  by (induction al) (auto split: if_splits)

lemma filter_Nil_iff: "filter P xs = [] \<longleftrightarrow> {x \<in> set xs. P x} = {}"
  by (auto simp: filter_empty_conv)

lemma filter_Cons_Min: "filter P xs = a # as \<Longrightarrow> fold min as a = Min {x \<in> set xs. P x}"
proof -
  assume h: "filter P xs = a # as"
  have "{x \<in> set xs. P x} = set (filter P xs)" by auto
  also have "\<dots> = set (a # as)" using h by simp
  finally show ?thesis by (simp only: Min.set_eq_fold)
qed

lemma filter_Cons_Max: "filter P xs = a # as \<Longrightarrow> fold max as a = Max {x \<in> set xs. P x}"
proof -
  assume h: "filter P xs = a # as"
  have "{x \<in> set xs. P x} = set (filter P xs)" by auto
  also have "\<dots> = set (a # as)" using h by simp
  finally show ?thesis by (simp only: Max.set_eq_fold)
qed

lemma funpow_idem: "f (f x) = f x \<Longrightarrow> 0 < n \<Longrightarrow> (f ^^ n) x = f x"
proof (induction n)
  case 0 then show ?case by simp
next
  case (Suc n) then show ?case by (cases n) simp_all
qed

subsection \<open>Demand registration\<close>

text \<open>The state a call of \<open>pressFloor\<close> or \<open>callFrom\<close> leaves.\<close>

lemma state_of_simps [simp]: "state_of (Inr s) = s" "state_of (Inl (e, s)) = s"
  by (simp_all add: state_of_def)

lemma state_of_warn [simp]: "state_of (warn v s) = s"
  by (simp add: warn_def split: option.splits)

lemma warn_JInt [simp]: "warn (JInt n) s = Inr s"
  by (simp add: warn_def)

lemma apply_pressFloor [simp]:
  "apply_event (PressFloor (JInt n)) s =
     (if \<not> validFloor s (JInt n) then s else s\<lparr>requests := Set_add n (requests s)\<rparr>)"
  "apply_event (PressFloor (JStr x)) s = s"
  "apply_event (PressFloor JSymbol) s = s"
  "apply_event (PressFloor JBadObject) s = s"
  "apply_event (PressFloor JOther) s = s"
  by simp_all

lemma apply_callFrom [simp]:
  "apply_event (CallFrom (JInt n) d) s =
     (let dir = normalizeDirection d in
      if \<not> validFloor s (JInt n) then s
      else if n = maxFloor s \<and> dir = Up then s
      else if n = minFloor s \<and> dir = Down then s
      else
        let cs1 = (if map_of (calls s) n \<noteq> None then calls s
                   else AList.update n [] (calls s));
            cs2 = AList.map_entry n (Set_add dir) cs1
        in s\<lparr>calls := cs2\<rparr>)"
  "apply_event (CallFrom (JStr x) d) s = s"
  "apply_event (CallFrom JSymbol d) s = s"
  "apply_event (CallFrom JBadObject d) s = s"
  "apply_event (CallFrom JOther d) s = s"
  by (simp_all add: Let_def)

declare apply_event.simps(1,2) [simp del]

lemma validFloor_iff: "validFloor s v \<longleftrightarrow> (\<exists>n. v = JInt n \<and> minFloor s \<le> n \<and> n \<le> maxFloor s)"
  by (cases v) (simp_all add: validFloor_def)

lemma validFloor_requests [simp]: "validFloor (s\<lparr>requests := r\<rparr>) v = validFloor s v"
  by (simp add: validFloor_def split: js_value.splits)

lemma validFloor_calls [simp]: "validFloor (s\<lparr>calls := r\<rparr>) v = validFloor s v"
  by (simp add: validFloor_def split: js_value.splits)

lemma pressFloor_idem: "apply_event (PressFloor f) (apply_event (PressFloor f) s) = apply_event (PressFloor f) s"
  by (cases f) simp_all

lemma callFrom_calls:
  "apply_event (CallFrom f d) s = s\<lparr>calls := calls (apply_event (CallFrom f d) s)\<rparr>"
  by (cases f) (simp_all add: Let_def)

lemma callFrom_idem: "apply_event (CallFrom f d) (apply_event (CallFrom f d) s) = apply_event (CallFrom f d) s"
proof (cases f)
  case (JInt n)
  define dir where "dir = normalizeDirection d"
  define cs1 where "cs1 = (if map_of (calls s) n \<noteq> None then calls s else AList.update n [] (calls s))"
  define cs2 where "cs2 = AList.map_entry n (Set_add dir) cs1"
  show ?thesis
  proof (cases "\<not> validFloor s (JInt n) \<or> (n = maxFloor s \<and> dir = Up) \<or> (n = minFloor s \<and> dir = Down)")
    case True
    then have "apply_event (CallFrom f d) s = s"
      using JInt by (auto simp: Let_def dir_def)
    then show ?thesis by simp
  next
    case False
    then have r: "apply_event (CallFrom f d) s = s\<lparr>calls := cs2\<rparr>"
      using JInt by (auto simp: Let_def dir_def cs1_def cs2_def)
    obtain ds where ds: "map_of cs1 n = Some ds"
      by (cases "map_of (calls s) n") (auto simp: cs1_def update_conv')
    then have m2: "map_of cs2 n = Some (Set_add dir ds)"
      by (simp add: cs2_def map_of_map_entry)
    have "AList.map_entry n (Set_add dir) cs2 = cs2"
      by (rule map_entry_same [OF m2]) simp
    with False m2 show ?thesis
      unfolding r using JInt by (auto simp: Let_def dir_def [symmetric])
  qed
qed simp_all

lemma hall_calls_update_new:
  "map_of cs n = None \<Longrightarrow> {(f, d). \<exists>ds. map_of (AList.map_entry n (Set_add dir) (AList.update n [] cs)) f = Some ds \<and> d \<in> set ds}
     = insert (n, dir) {(f, d). \<exists>ds. map_of cs f = Some ds \<and> d \<in> set ds}"
  by (auto simp: map_of_map_entry update_conv' split: if_splits)

lemma hall_calls_update_old:
  "map_of cs n = Some ds0 \<Longrightarrow> {(f, d). \<exists>ds. map_of (AList.map_entry n (Set_add dir) cs) f = Some ds \<and> d \<in> set ds}
     = insert (n, dir) {(f, d). \<exists>ds. map_of cs f = Some ds \<and> d \<in> set ds}"
  by (auto simp: map_of_map_entry split: if_splits)

lemma hall_calls_constructor: "hall_calls (constructor c) = {}"
  by (simp add: hall_calls_def constructor_def)

text \<open>
  Claim C6, as the code has it. When the floor argument is not an integer within
  \<open>[minFloor, maxFloor]\<close>, \<open>pressFloor\<close> and \<open>callFrom\<close> (with any direction
  argument) leave the state they were given, in every component; and when the argument
  can be converted to a string, they return, with no value other than that state and
  without an exception.
\<close>

theorem invalid_floor_no_effect:
  "\<not> (\<exists>n. f = JInt n \<and> minFloor s \<le> n \<and> n \<le> maxFloor s) \<Longrightarrow>
     apply_event (PressFloor f) s = s \<and> apply_event (CallFrom f d) s = s \<and>
     (toStringThrows f = None \<longrightarrow> pressFloor f s = Inr s \<and> callFrom f d s = Inr s)"
  by (cases f) (auto simp: validFloor_def warn_def)

theorem invalid_floor_no_effect_witness:
  "apply_event (PressFloor (JInt 11)) (constructor (floors 1 10)) = constructor (floors 1 10) \<and>
   apply_event (CallFrom (JInt 11) (JStr ''up'')) (constructor (floors 1 10)) =
     constructor (floors 1 10) \<and>
   pressFloor (JInt 11) (constructor (floors 1 10)) = Inr (constructor (floors 1 10)) \<and>
   callFrom (JInt 11) (JStr ''up'') (constructor (floors 1 10)) = Inr (constructor (floors 1 10))"
  using invalid_floor_no_effect [of "JInt 11" "constructor (floors 1 10)" "JStr ''up''"]
  by (simp add: constructor_def floors_def dflt_def)

text \<open>
  The statement of C6 that no exception reaches the caller fails for a Symbol: the
  message of the warning (lines 44 and 55) interpolates the argument, and the call
  throws a TypeError. The state is the one before the call.
\<close>

theorem invalid_floor_no_effect_counterexample:
  "pressFloor JSymbol (constructor (floors 1 10)) = Inl (TypeError, constructor (floors 1 10)) \<and>
   callFrom JSymbol (JStr ''up'') (constructor (floors 1 10)) =
     Inl (TypeError, constructor (floors 1 10))"
  by (simp add: warn_def)

lemma pressFloor_JInt_returns:
  "pressFloor (JInt n) s = Inr (apply_event (PressFloor (JInt n)) s)"
  by simp

lemma callFrom_JInt_returns:
  "callFrom (JInt n) d s = Inr (apply_event (CallFrom (JInt n) d) s)"
  by (simp add: Let_def)

lemma callFrom_boundary_state:
  "apply_event (CallFrom (JInt (maxFloor s)) (JStr ''up'')) s = s \<and>
   (d \<noteq> JStr ''up'' \<longrightarrow> apply_event (CallFrom (JInt (minFloor s)) d) s = s) \<and>
   (minFloor s \<le> n \<and> n \<le> maxFloor s \<and>
    \<not> (n = maxFloor s \<and> normalizeDirection d = Up) \<and> \<not> (n = minFloor s \<and> normalizeDirection d = Down) \<longrightarrow>
      hall_calls (apply_event (CallFrom (JInt n) d) s) = insert (n, normalizeDirection d) (hall_calls s) \<and>
      apply_event (CallFrom (JInt n) d) s = s\<lparr>calls := calls (apply_event (CallFrom (JInt n) d) s)\<rparr>)"
proof (intro conjI impI)
  show "apply_event (CallFrom (JInt (maxFloor s)) (JStr ''up'')) s = s"
    by (simp add: normalizeDirection_def)
  show "apply_event (CallFrom (JInt (minFloor s)) d) s = s" if "d \<noteq> JStr ''up''"
    using that by (simp add: normalizeDirection_def)
  show "apply_event (CallFrom (JInt n) d) s = s\<lparr>calls := calls (apply_event (CallFrom (JInt n) d) s)\<rparr>"
    by (rule callFrom_calls)
  assume a: "minFloor s \<le> n \<and> n \<le> maxFloor s \<and>
    \<not> (n = maxFloor s \<and> normalizeDirection d = Up) \<and> \<not> (n = minFloor s \<and> normalizeDirection d = Down)"
  then have v: "validFloor s (JInt n)" by (simp add: validFloor_def)
  show "hall_calls (apply_event (CallFrom (JInt n) d) s) = insert (n, normalizeDirection d) (hall_calls s)"
  proof (cases "map_of (calls s) n")
    case None
    with a v show ?thesis
      by (auto simp: hall_calls_def Let_def hall_calls_update_new)
  next
    case (Some ds0)
    with a v show ?thesis
      by (auto simp: hall_calls_def Let_def hall_calls_update_old)
  qed
qed

text \<open>
  Claim C7. \<open>callFrom(maxFloor, "up")\<close> returns with nothing changed; \<open>callFrom(minFloor, d)\<close>
  returns with nothing changed for every \<open>d\<close> other than the string \<open>"up"\<close>, since such a
  \<open>d\<close> is normalised to Down; every other call with a floor in range returns, adds the
  pair of the floor and the normalised direction to the pending hall calls and changes
  no other field.
\<close>

theorem callFrom_boundary:
  "callFrom (JInt (maxFloor s)) (JStr ''up'') s = Inr s \<and>
   apply_event (CallFrom (JInt (maxFloor s)) (JStr ''up'')) s = s \<and>
   (d \<noteq> JStr ''up'' \<longrightarrow>
      callFrom (JInt (minFloor s)) d s = Inr s \<and>
      apply_event (CallFrom (JInt (minFloor s)) d) s = s) \<and>
   (minFloor s \<le> n \<and> n \<le> maxFloor s \<and>
    \<not> (n = maxFloor s \<and> normalizeDirection d = Up) \<and> \<not> (n = minFloor s \<and> normalizeDirection d = Down) \<longrightarrow>
      callFrom (JInt n) d s = Inr (apply_event (CallFrom (JInt n) d) s) \<and>
      hall_calls (apply_event (CallFrom (JInt n) d) s) = insert (n, normalizeDirection d) (hall_calls s) \<and>
      apply_event (CallFrom (JInt n) d) s = s\<lparr>calls := calls (apply_event (CallFrom (JInt n) d) s)\<rparr>)"
proof -
  note st = callFrom_boundary_state [of s d n]
  have a: "callFrom (JInt (maxFloor s)) (JStr ''up'') s = Inr s"
    using st callFrom_JInt_returns [of "maxFloor s" "JStr ''up''" s] by simp
  have b: "callFrom (JInt (minFloor s)) d s = Inr s" if "d \<noteq> JStr ''up''"
    using that st callFrom_JInt_returns [of "minFloor s" d s] by simp
  show ?thesis
    using st a b callFrom_JInt_returns [of n d s] by blast
qed

theorem callFrom_boundary_witness:
  "callFrom (JInt 10) (JStr ''up'') (constructor (floors 1 10)) = Inr (constructor (floors 1 10)) \<and>
   callFrom (JInt 1) (JStr ''down'') (constructor (floors 1 10)) = Inr (constructor (floors 1 10)) \<and>
   apply_event (CallFrom (JInt 10) (JStr ''up'')) (constructor (floors 1 10)) = constructor (floors 1 10) \<and>
   apply_event (CallFrom (JInt 1) (JStr ''down'')) (constructor (floors 1 10)) = constructor (floors 1 10) \<and>
   hall_calls (apply_event (CallFrom (JInt 4) (JStr ''down'')) (constructor (floors 1 10))) = {(4, Down)}"
  using callFrom_boundary [of "constructor (floors 1 10)" "JStr ''down''" 4]
  by (simp add: constructor_def floors_def dflt_def normalizeDirection_def hall_calls_def)

lemma call_n_fixed: "f s = Inr s \<Longrightarrow> call_n m f s = Inr s"
  by (induction m) simp_all

lemma call_n_idem:
  assumes "\<And>s'. f s = Inr s' \<Longrightarrow> f s' = Inr s'" and "0 < n"
  shows "call_n n f s = f s"
proof -
  obtain m where n: "n = Suc m" using assms(2) by (cases n) auto
  show ?thesis
  proof (cases "f s")
    case (Inl x)
    then show ?thesis by (simp add: n)
  next
    case (Inr s')
    then have "call_n m f s' = Inr s'" using assms(1) call_n_fixed by blast
    with Inr show ?thesis by (simp add: n)
  qed
qed

lemma pressFloor_again: "pressFloor f s = Inr s' \<Longrightarrow> pressFloor f s' = Inr s'"
proof (cases f)
  case (JInt n)
  assume "pressFloor f s = Inr s'"
  then have "s' = apply_event (PressFloor f) s"
    unfolding JInt pressFloor_JInt_returns by simp
  then show ?thesis
    unfolding JInt pressFloor_JInt_returns using pressFloor_idem [of "JInt n" s] by simp
qed (auto simp: warn_def)

lemma callFrom_again: "callFrom f d s = Inr s' \<Longrightarrow> callFrom f d s' = Inr s'"
proof (cases f)
  case (JInt n)
  assume "callFrom f d s = Inr s'"
  then have "s' = apply_event (CallFrom f d) s"
    unfolding JInt callFrom_JInt_returns by simp
  then show ?thesis
    unfolding JInt callFrom_JInt_returns using callFrom_idem [of "JInt n" d s] by simp
qed (auto simp: warn_def)

text \<open>
  Claim C8. Calling \<open>pressFloor(f)\<close> \<open>n \<ge> 1\<close> times gives the outcome and the state that
  one call gives, and so does calling \<open>callFrom(f, d)\<close> \<open>n\<close> times. This holds for every
  argument, a floor in range being the case of the claim.
\<close>

theorem registration_idempotent:
  "0 < n \<Longrightarrow>
     (apply_event (PressFloor f) ^^ n) s = apply_event (PressFloor f) s \<and>
     (apply_event (CallFrom f d) ^^ n) s = apply_event (CallFrom f d) s \<and>
     call_n n (pressFloor f) s = pressFloor f s \<and>
     call_n n (callFrom f d) s = callFrom f d s"
  by (simp add: funpow_idem pressFloor_idem callFrom_idem call_n_idem pressFloor_again
      callFrom_again)

theorem registration_idempotent_witness:
  "requests ((apply_event (PressFloor (JInt 4)) ^^ 3) (constructor (floors 1 10))) = [4] \<and>
   calls ((apply_event (CallFrom (JInt 4) (JStr ''up'')) ^^ 3) (constructor (floors 1 10))) =
     [(4, [Up])] \<and>
   call_n 3 (pressFloor (JInt 4)) (constructor (floors 1 10)) =
     Inr ((constructor (floors 1 10))\<lparr>requests := [4]\<rparr>)"
  using registration_idempotent [of 3 "JInt 4" "constructor (floors 1 10)" "JStr ''up''"]
  by (simp add: constructor_def floors_def dflt_def validFloor_def normalizeDirection_def
      Set_add_def Let_def)

subsection \<open>Direction decision\<close>

lemma set_targets: "set (targets s) = demand_floors s"
  by (simp add: targets_def demand_floors_def set_fold_Set_add)

lemma demand_floors_empty: "demand_floors s = {} \<longleftrightarrow> requests s = [] \<and> calls s = []"
  by (simp add: demand_floors_def)

text \<open>
  Claim C1. For every controller state the direction decision of the code is the decision
  of the four rules: Idle without any panel request or hall call; from Up, Up when a demand
  floor lies strictly above the current floor, else Down when one lies strictly below, else
  Idle; from Down the mirrored rule; from Idle the side whose nearest demand floor is
  fewer floors away, Up when both distances are equal (and Idle when no demand floor lies
  on either side).
\<close>

theorem decideDirection_rules: "decideDirection s = decide_spec s"
proof (cases "requests s = [] \<and> calls s = []")
  case True
  then show ?thesis
    by (simp add: decideDirection_def decide_spec_def demand_floors_def)
next
  case False
  define c where "c = currentFloor s"
  define above where "above = filter (\<lambda>f. f > c) (targets s)"
  define below where "below = filter (\<lambda>f. f < c) (targets s)"
  define A where "A = {f \<in> demand_floors s. c < f}"
  define B where "B = {f \<in> demand_floors s. f < c}"
  have ne: "demand_floors s \<noteq> {}" using False by (simp add: demand_floors_empty)
  have a0: "above = [] \<longleftrightarrow> A = {}"
    by (simp add: above_def A_def filter_Nil_iff set_targets)
  have b0: "below = [] \<longleftrightarrow> B = {}"
    by (simp add: below_def B_def filter_Nil_iff set_targets)
  have code: "decideDirection s =
      (if direction s = Up then
            (if above \<noteq> [] then Up else if below \<noteq> [] then Down else Idle)
          else if direction s = Down then
            (if below \<noteq> [] then Down else if above \<noteq> [] then Up else Idle)
          else
            (case above of
               [] \<Rightarrow> (case below of [] \<Rightarrow> Idle | b # bs \<Rightarrow> Down)
             | a # as \<Rightarrow>
                 (case below of
                    [] \<Rightarrow> Up
                  | b # bs \<Rightarrow>
                      if fold min as a - c \<le> c - fold max bs b then Up else Down)))"
    unfolding decideDirection_def Let_def above_def below_def c_def
    by (rule if_not_P [OF False])
  have spec: "decide_spec s =
      (case direction s of
           Up \<Rightarrow> if A \<noteq> {} then Up else if B \<noteq> {} then Down else Idle
         | Down \<Rightarrow> if B \<noteq> {} then Down else if A \<noteq> {} then Up else Idle
         | Idle \<Rightarrow>
             if A = {} \<and> B = {} then Idle
             else if B = {} then Up
             else if A = {} then Down
             else if Min A - c \<le> c - Max B then Up
             else Down)"
    unfolding decide_spec_def Let_def A_def B_def c_def
    by (rule if_not_P [OF ne])
  show ?thesis
  proof (cases "direction s")
    case Up
    then show ?thesis by (simp add: code spec a0 b0)
  next
    case Down
    then show ?thesis by (simp add: code spec a0 b0)
  next
    case Idle
    show ?thesis
    proof (cases above)
      case Nil
      then show ?thesis using Idle a0 b0 by (cases below) (simp_all add: code spec)
    next
      case (Cons a as)
      note ca = Cons
      show ?thesis
      proof (cases below)
        case Nil
        then show ?thesis using Idle ca a0 b0 by (simp add: code spec)
      next
        case (Cons b bs)
        have mA: "fold min as a = Min A"
          using ca unfolding above_def A_def set_targets [symmetric] by (rule filter_Cons_Min)
        have mB: "fold max bs b = Max B"
          using Cons unfolding below_def B_def set_targets [symmetric] by (rule filter_Cons_Max)
        from ca Cons a0 b0 have "A \<noteq> {}" "B \<noteq> {}" by simp_all
        then show ?thesis using Idle ca Cons by (simp add: code spec mA mB)
      qed
    qed
  qed
qed

lemma decide_tie_up:
  "decideDirection ((apply_event (PressFloor (JInt 5)) (apply_event (PressFloor (JInt 1)) (constructor (floors 1 10))))\<lparr>currentFloor := 3\<rparr>) = Up"
  by (simp add: decideDirection_def targets_def constructor_def floors_def dflt_def validFloor_def Set_add_def)

subsection \<open>Door guards\<close>

text \<open>
  Claim C10. With \<open>doorsOpen\<close> already true, \<open>openDoors\<close> returns at once (it does not
  reach a sleep) with the state unchanged in every component, so pending demand at the
  current floor is neither removed nor fulfilled; with \<open>doorsOpen\<close> false, \<open>closeDoors\<close>
  likewise changes nothing.
\<close>

theorem door_guards_noop:
  "(doorsOpen s \<longrightarrow> openDoors s = s \<and> openDoors_enter s = (LoopTest, s)) \<and>
   (\<not> doorsOpen s \<longrightarrow> closeDoors s = s \<and> closeDoors_enter ThenLoop s = (LoopTest, s))"
  by (simp add: openDoors_def closeDoors_def openDoors_enter_def closeDoors_enter_def after_close_def)

theorem door_guards_noop_witness:
  "openDoors ((apply_event (PressFloor (JInt 1)) (constructor (floors 1 10)))\<lparr>doorsOpen := True\<rparr>) =
     (apply_event (PressFloor (JInt 1)) (constructor (floors 1 10)))\<lparr>doorsOpen := True\<rparr> \<and>
   requests (openDoors ((apply_event (PressFloor (JInt 1)) (constructor (floors 1 10)))\<lparr>doorsOpen := True\<rparr>)) = [1] \<and>
   closeDoors (constructor (floors 1 10)) = constructor (floors 1 10)"
  using door_guards_noop [of "(apply_event (PressFloor (JInt 1)) (constructor (floors 1 10)))\<lparr>doorsOpen := True\<rparr>"]
    door_guards_noop [of "constructor (floors 1 10)"]
  by (simp add: constructor_def floors_def dflt_def validFloor_def Set_add_def)

subsection \<open>Fulfilment when the doors have opened\<close>

lemma Set_delete_set [simp]: "set (Set_delete x xs) = set xs - {x}"
  by (simp add: Set_delete_def)

lemma Set_delete_Nil_iff: "Set_delete x xs = [] \<longleftrightarrow> set xs - {x} = {}"
  by (metis Set_delete_set set_empty)

lemma fulfilRequest_requests:
  "set (requests (fulfilRequest s)) = set (requests s) - {currentFloor s} \<and>
   (currentFloor s \<notin> set (requests s) \<longrightarrow> requests (fulfilRequest s) = requests s)"
  by (simp add: fulfilRequest_def)

lemma fulfilRequest_frame:
  "fulfilRequest s = s\<lparr>requests := requests (fulfilRequest s)\<rparr>"
  by (simp add: fulfilRequest_def)

lemma fulfilCalls_frame:
  "fulfilCalls s = s\<lparr>calls := calls (fulfilCalls s)\<rparr>"
  by (simp add: fulfilCalls_def Let_def split: option.splits)

lemma fulfilCalls_other:
  "g \<noteq> currentFloor s \<Longrightarrow> map_of (calls (fulfilCalls s)) g = map_of (calls s) g"
  by (simp add: fulfilCalls_def Let_def update_conv' delete_conv' split: option.splits)

lemma fulfilCalls_here_Idle:
  "direction s = Idle \<Longrightarrow> map_of (calls s) (currentFloor s) \<noteq> Some [] \<Longrightarrow>
     map_of (calls (fulfilCalls s)) (currentFloor s) = None"
  by (simp add: fulfilCalls_def Let_def delete_conv' split: option.splits)

lemma fulfilCalls_here_moving:
  "direction s \<noteq> Idle \<Longrightarrow> map_of (calls s) (currentFloor s) \<noteq> Some [] \<Longrightarrow>
     map_of (calls (fulfilCalls s)) (currentFloor s) =
       (case map_of (calls s) (currentFloor s) of
          None \<Rightarrow> None
        | Some ds \<Rightarrow>
            if (if direction s \<in> set ds then Set_delete (direction s) ds else ds) = [] then None
            else Some (if direction s \<in> set ds then Set_delete (direction s) ds else ds))"
  by (simp add: fulfilCalls_def Let_def delete_conv' update_conv' split: option.splits)

lemma hall_calls_Idle:
  assumes "direction s = Idle" "map_of (calls s) (currentFloor s) \<noteq> Some []"
  shows "hall_calls (fulfilCalls s) = {(g, d) \<in> hall_calls s. g \<noteq> currentFloor s}"
proof -
  have "(g, d) \<in> hall_calls (fulfilCalls s) \<longleftrightarrow> (g, d) \<in> hall_calls s \<and> g \<noteq> currentFloor s" for g d
  proof (cases "g = currentFloor s")
    case True
    then show ?thesis using fulfilCalls_here_Idle [OF assms] by (simp add: hall_calls_def)
  next
    case False
    then show ?thesis using fulfilCalls_other [of g s] by (simp add: hall_calls_def)
  qed
  then show ?thesis by auto
qed

lemma hall_calls_moving:
  assumes "direction s \<noteq> Idle" "map_of (calls s) (currentFloor s) \<noteq> Some []"
  shows "hall_calls (fulfilCalls s) = hall_calls s - {(currentFloor s, direction s)}"
proof -
  have "(g, d) \<in> hall_calls (fulfilCalls s) \<longleftrightarrow> (g, d) \<in> hall_calls s \<and> (g, d) \<noteq> (currentFloor s, direction s)" for g d
  proof (cases "g = currentFloor s")
    case True
    then show ?thesis using fulfilCalls_here_moving [OF assms]
      by (auto simp: hall_calls_def Set_delete_Nil_iff split: option.splits if_splits)
  next
    case False
    then show ?thesis using fulfilCalls_other [of g s] by (simp add: hall_calls_def)
  qed
  then show ?thesis by auto
qed

lemma nonempty_has_member: "xs \<noteq> [] \<Longrightarrow> \<exists>x. x \<in> set xs"
  by (cases xs) auto

lemma entry_deleted_iff:
  assumes "direction s \<noteq> Idle" "map_of (calls s) (currentFloor s) \<noteq> Some []"
  shows "map_of (calls (fulfilCalls s)) (currentFloor s) = None \<longleftrightarrow>
         (\<forall>d. (currentFloor s, d) \<notin> hall_calls (fulfilCalls s))"
proof (cases "map_of (calls (fulfilCalls s)) (currentFloor s)")
  case None
  then show ?thesis by (simp add: hall_calls_def)
next
  case (Some ds')
  then have "ds' \<noteq> []"
    using fulfilCalls_here_moving [OF assms] by (auto split: option.splits if_splits)
  then obtain d where "d \<in> set ds'" using nonempty_has_member by blast
  then have "(currentFloor s, d) \<in> hall_calls (fulfilCalls s)"
    using Some by (simp add: hall_calls_def)
  then show ?thesis using Some by auto
qed

lemma fulfilRequest_fields [simp]:
  "calls (fulfilRequest s) = calls s" "currentFloor (fulfilRequest s) = currentFloor s"
  "direction (fulfilRequest s) = direction s" "doorsOpen (fulfilRequest s) = doorsOpen s"
  by (simp_all add: fulfilRequest_def)

lemma fulfilCalls_fields [simp]:
  "requests (fulfilCalls s) = requests s" "currentFloor (fulfilCalls s) = currentFloor s"
  "direction (fulfilCalls s) = direction s" "doorsOpen (fulfilCalls s) = doorsOpen s"
  by (simp_all add: fulfilCalls_def Let_def split: option.splits)

lemma hall_calls_cong: "calls a = calls b \<Longrightarrow> hall_calls a = hall_calls b"
  by (simp add: hall_calls_def)

lemma openDoors_opened_frame:
  "openDoors_opened s =
     s\<lparr>doorsOpen := True, requests := requests (openDoors_opened s),
       calls := calls (openDoors_opened s)\<rparr>"
proof -
  let ?a = "s\<lparr>doorsOpen := True\<rparr>"
  have "openDoors_opened s = (fulfilRequest ?a)\<lparr>calls := calls (openDoors_opened s)\<rparr>"
    unfolding openDoors_opened_def by (rule fulfilCalls_frame)
  also have "fulfilRequest ?a = ?a\<lparr>requests := requests (fulfilRequest ?a)\<rparr>"
    by (rule fulfilRequest_frame)
  also have "requests (fulfilRequest ?a) = requests (openDoors_opened s)"
    by (simp add: openDoors_opened_def)
  finally show ?thesis by simp
qed

text \<open>
  Claim C2. When the transition to Open completes at the current floor \<open>f\<close>, the doors
  are open and no field other than the panel requests and the hall calls changes; \<open>f\<close>
  leaves the panel requests (which are untouched when \<open>f\<close> was not requested). If the
  direction is Idle, every hall call at \<open>f\<close> is fulfilled and the map has no entry for
  \<open>f\<close> afterwards. If the direction is Up or Down, exactly the call \<open>(f, direction)\<close>
  is removed, so a call at \<open>f\<close> in the opposite direction stays pending, and the map has
  no entry for \<open>f\<close> afterwards exactly when no call at \<open>f\<close> is left. The assumption is
  that the map holds no empty direction set for \<open>f\<close>, which is so in every reachable
  configuration (lemma \<open>reachable_no_empty_entry\<close> below).
\<close>

theorem openDoors_opened_fulfils:
  assumes "map_of (calls s) (currentFloor s) \<noteq> Some []"
  shows "openDoors_opened s =
           s\<lparr>doorsOpen := True, requests := requests (openDoors_opened s),
             calls := calls (openDoors_opened s)\<rparr> \<and>
         set (requests (openDoors_opened s)) = set (requests s) - {currentFloor s} \<and>
         (currentFloor s \<notin> set (requests s) \<longrightarrow> requests (openDoors_opened s) = requests s) \<and>
         (direction s = Idle \<longrightarrow>
            hall_calls (openDoors_opened s) = {(g, d) \<in> hall_calls s. g \<noteq> currentFloor s} \<and>
            map_of (calls (openDoors_opened s)) (currentFloor s) = None) \<and>
         (direction s \<noteq> Idle \<longrightarrow>
            hall_calls (openDoors_opened s) = hall_calls s - {(currentFloor s, direction s)} \<and>
            (map_of (calls (openDoors_opened s)) (currentFloor s) = None \<longleftrightarrow>
               (\<forall>d. (currentFloor s, d) \<notin> hall_calls (openDoors_opened s))))"
proof -
  define a where "a = fulfilRequest (s\<lparr>doorsOpen := True\<rparr>)"
  have o: "openDoors_opened s = fulfilCalls a"
    by (simp add: openDoors_opened_def a_def)
  have a: "calls a = calls s" "currentFloor a = currentFloor s" "direction a = direction s"
    by (simp_all add: a_def)
  have h: "hall_calls a = hall_calls s"
    by (rule hall_calls_cong) (rule a)
  have ne: "map_of (calls a) (currentFloor a) \<noteq> Some []"
    using assms by (simp add: a)
  have r: "set (requests (openDoors_opened s)) = set (requests s) - {currentFloor s}"
       "currentFloor s \<notin> set (requests s) \<longrightarrow> requests (openDoors_opened s) = requests s"
    using fulfilRequest_requests [of "s\<lparr>doorsOpen := True\<rparr>"] by (simp_all add: o a_def)
  have i: "hall_calls (openDoors_opened s) = {(g, d) \<in> hall_calls s. g \<noteq> currentFloor s} \<and>
           map_of (calls (openDoors_opened s)) (currentFloor s) = None" if "direction s = Idle"
    using that hall_calls_Idle [of a, OF _ ne] fulfilCalls_here_Idle [of a, OF _ ne]
    by (simp add: o a h)
  have m: "hall_calls (openDoors_opened s) = hall_calls s - {(currentFloor s, direction s)} \<and>
           (map_of (calls (openDoors_opened s)) (currentFloor s) = None \<longleftrightarrow>
              (\<forall>d. (currentFloor s, d) \<notin> hall_calls (openDoors_opened s)))" if "direction s \<noteq> Idle"
    using that hall_calls_moving [of a, OF _ ne] entry_deleted_iff [of a, OF _ ne]
    by (simp add: o a h)
  show ?thesis
    using openDoors_opened_frame [of s] r i m by blast
qed

theorem openDoors_opened_fulfils_witness:
  "requests (openDoors_opened
      ((apply_event (PressFloor (JInt 5)) (apply_event (PressFloor (JInt 2)) (apply_event (CallFrom (JInt 2) (JStr ''down''))
         (apply_event (CallFrom (JInt 2) (JStr ''up'')) (constructor (floors 1 5))))))
       \<lparr>currentFloor := 2, direction := Up\<rparr>)) = [5] \<and>
   calls (openDoors_opened
      ((apply_event (PressFloor (JInt 5)) (apply_event (PressFloor (JInt 2)) (apply_event (CallFrom (JInt 2) (JStr ''down''))
         (apply_event (CallFrom (JInt 2) (JStr ''up'')) (constructor (floors 1 5))))))
       \<lparr>currentFloor := 2, direction := Up\<rparr>)) = [(2, [Down])]"
  using openDoors_opened_fulfils
    [of "(apply_event (PressFloor (JInt 5)) (apply_event (PressFloor (JInt 2)) (apply_event (CallFrom (JInt 2) (JStr ''down''))
         (apply_event (CallFrom (JInt 2) (JStr ''up'')) (constructor (floors 1 5))))))
       \<lparr>currentFloor := 2, direction := Up\<rparr>"]
  by (simp add: constructor_def floors_def dflt_def validFloor_def normalizeDirection_def
      Set_add_def Set_delete_def Let_def openDoors_opened_def fulfilRequest_def fulfilCalls_def)

subsection \<open>The range invariant\<close>

lemma in_range_constructor:
  "dflt 1 (cfg_minFloor c) < dflt 10 (cfg_maxFloor c) \<Longrightarrow> in_range (constructor c)"
  by (simp add: in_range_def constructor_def)

lemma in_range_frame [simp]:
  "in_range (s\<lparr>direction := d\<rparr>) = in_range s"
  "in_range (s\<lparr>doorsOpen := b\<rparr>) = in_range s"
  "in_range (s\<lparr>running := r\<rparr>) = in_range s"
  by (simp_all add: in_range_def)

lemma in_range_pressFloor: "in_range s \<Longrightarrow> in_range (apply_event (PressFloor v) s)"
  by (cases v) (auto simp: in_range_def validFloor_def)

lemma keys_callFrom: "fst ` set (calls (apply_event (CallFrom (JInt n) d) s)) \<subseteq> insert n (fst ` set (calls s))"
  by (auto simp: Let_def dom_map_entry dom_update)

lemma callFrom_fields [simp]:
  "minFloor (apply_event (CallFrom v d) s) = minFloor s" "maxFloor (apply_event (CallFrom v d) s) = maxFloor s"
  "currentFloor (apply_event (CallFrom v d) s) = currentFloor s" "requests (apply_event (CallFrom v d) s) = requests s"
  "doorsOpen (apply_event (CallFrom v d) s) = doorsOpen s" "direction (apply_event (CallFrom v d) s) = direction s"
  by (cases v; simp add: Let_def)+

lemma pressFloor_fields [simp]:
  "minFloor (apply_event (PressFloor v) s) = minFloor s" "maxFloor (apply_event (PressFloor v) s) = maxFloor s"
  "currentFloor (apply_event (PressFloor v) s) = currentFloor s" "calls (apply_event (PressFloor v) s) = calls s"
  "doorsOpen (apply_event (PressFloor v) s) = doorsOpen s" "direction (apply_event (PressFloor v) s) = direction s"
  by (cases v; simp)+

lemma in_range_callFrom: "in_range s \<Longrightarrow> in_range (apply_event (CallFrom v d) s)"
proof (cases v)
  case (JInt n)
  assume r: "in_range s"
  show ?thesis
  proof (cases "apply_event (CallFrom v d) s = s")
    case True
    with r show ?thesis by simp
  next
    case False
    then have "validFloor s (JInt n)" using JInt by (auto simp: Let_def split: if_splits)
    then have "minFloor s \<le> n \<and> n \<le> maxFloor s" by (simp add: validFloor_def)
    with r keys_callFrom [of n d s] show ?thesis
      unfolding JInt in_range_def by (simp only: callFrom_fields) blast
  qed
qed simp_all

lemma fulfilRequest_bounds [simp]:
  "minFloor (fulfilRequest s) = minFloor s" "maxFloor (fulfilRequest s) = maxFloor s"
  by (simp_all add: fulfilRequest_def)

lemma fulfilCalls_bounds [simp]:
  "minFloor (fulfilCalls s) = minFloor s" "maxFloor (fulfilCalls s) = maxFloor s"
  by (simp_all add: fulfilCalls_def Let_def split: option.splits)

lemma keys_fulfilCalls: "fst ` set (calls (fulfilCalls s)) \<subseteq> fst ` set (calls s)"
proof (cases "map_of (calls s) (currentFloor s)")
  case None
  then show ?thesis by (simp add: fulfilCalls_def)
next
  case (Some ds)
  then have k: "currentFloor s \<in> fst ` set (calls s)"
    by (meson domI dom_map_of_conv_image_fst[THEN equalityD1] subsetD)
  have d: "fst ` set (AList.delete k al) \<subseteq> fst ` set al" for k :: int and al :: "(int \<times> direction list) list"
    by (rule dom_delete_subset)
  show ?thesis
    using Some k d [of "currentFloor s" "calls s"]
      d [of "currentFloor s" "AList.update (currentFloor s) v (calls s)" for v]
    by (auto simp: fulfilCalls_def Let_def dom_update delete_update_same)
qed

lemma in_range_mono:
  assumes "in_range s" "minFloor s' = minFloor s" "maxFloor s' = maxFloor s"
    "currentFloor s' = currentFloor s" "set (requests s') \<subseteq> set (requests s)"
    "fst ` set (calls s') \<subseteq> fst ` set (calls s)"
  shows "in_range s'"
proof -
  have "minFloor s \<le> f \<and> f \<le> maxFloor s" if "f \<in> set (requests s')" for f
    using that assms(1,5) unfolding in_range_def by blast
  moreover have "minFloor s \<le> f \<and> f \<le> maxFloor s" if "f \<in> fst ` set (calls s')" for f
    using that assms(1,6) unfolding in_range_def by blast
  ultimately show ?thesis
    using assms(1-4) unfolding in_range_def by simp
qed

lemma in_range_openDoors_opened: "in_range s \<Longrightarrow> in_range (openDoors_opened s)"
proof -
  assume r: "in_range s"
  have a: "set (requests (openDoors_opened s)) \<subseteq> set (requests s)"
    by (simp add: openDoors_opened_def fulfilRequest_def)
  have b: "fst ` set (calls (openDoors_opened s)) \<subseteq> fst ` set (calls s)"
    using keys_fulfilCalls [of "fulfilRequest (s\<lparr>doorsOpen := True\<rparr>)"]
    by (simp add: openDoors_opened_def)
  have c: "minFloor (openDoors_opened s) = minFloor s" "maxFloor (openDoors_opened s) = maxFloor s"
    "currentFloor (openDoors_opened s) = currentFloor s"
    by (simp_all add: openDoors_opened_def)
  show ?thesis
    by (rule in_range_mono [OF r c(1) c(2) c(3) a b])
qed

lemma in_range_closeDoors: "in_range s \<Longrightarrow> in_range (closeDoors s)"
  by (simp add: closeDoors_def)

lemma in_range_openDoors: "in_range s \<Longrightarrow> in_range (openDoors s)"
  by (simp add: openDoors_def in_range_closeDoors in_range_openDoors_opened)

lemma in_range_arrive:
  "in_range s \<Longrightarrow> validFloor s (JInt t) \<Longrightarrow> in_range (s\<lparr>currentFloor := t\<rparr>)"
  by (simp add: in_range_def validFloor_def)

lemma in_range_moveOneFloor: "in_range s \<Longrightarrow> in_range (moveOneFloor s)"
  by (simp add: moveOneFloor_def Let_def in_range_openDoors in_range_arrive)

lemma in_range_loopBody: "in_range s \<Longrightarrow> in_range (loopBody s)"
  by (simp add: loopBody_def Let_def in_range_moveOneFloor in_range_closeDoors)

lemma in_range_whileRunning: "in_range s \<Longrightarrow> in_range (whileRunning n s)"
  by (induction n arbitrary: s) (simp_all add: in_range_loopBody)

lemma in_range_apply_event: "in_range s \<Longrightarrow> in_range (apply_event e s)"
  by (cases e) (simp_all add: in_range_pressFloor in_range_callFrom stop_def)

lemma bounds_apply_event [simp]:
  "minFloor (apply_event e s) = minFloor s" "maxFloor (apply_event e s) = maxFloor s"
  by (cases e; simp add: stop_def)+

lemma conf_in_range_I: "in_range s \<Longrightarrow> (\<And>t. p = TravelSleep t \<Longrightarrow> minFloor s \<le> t \<and> t \<le> maxFloor s) \<Longrightarrow> conf_in_range (p, s)"
  by (cases p) simp_all

lemma conf_in_range_D: "conf_in_range (p, s) \<Longrightarrow> in_range s"
  by (cases p) simp_all

lemma conf_in_range_moveOneFloor_enter: "in_range s \<Longrightarrow> conf_in_range (moveOneFloor_enter s)"
  by (simp add: moveOneFloor_enter_def validFloor_def)

lemma conf_in_range_after_close: "in_range s \<Longrightarrow> conf_in_range (after_close k s)"
  by (cases k) (simp_all add: after_close_def conf_in_range_moveOneFloor_enter)

lemma conf_in_range_closeDoors_enter: "in_range s \<Longrightarrow> conf_in_range (closeDoors_enter k s)"
  by (simp add: closeDoors_enter_def conf_in_range_after_close)

lemma conf_in_range_loop_step: "conf_in_range cf \<Longrightarrow> conf_in_range (loop_step cf)"
proof (cases cf)
  case (Pair p s)
  assume "conf_in_range cf"
  then show ?thesis unfolding Pair
    by (cases p)
      (simp_all add: loop_test_def Let_def conf_in_range_moveOneFloor_enter
        conf_in_range_closeDoors_enter conf_in_range_after_close in_range_openDoors_opened
        moveOneFloor_arrive_def openDoors_enter_def in_range_arrive validFloor_def)
qed

lemma bounds_moveOneFloor_enter:
  "minFloor (snd (moveOneFloor_enter s)) = minFloor s \<and>
   maxFloor (snd (moveOneFloor_enter s)) = maxFloor s"
  by (simp add: moveOneFloor_enter_def)

lemma bounds_after_close:
  "minFloor (snd (after_close k s)) = minFloor s \<and> maxFloor (snd (after_close k s)) = maxFloor s"
  by (cases k) (simp_all add: after_close_def bounds_moveOneFloor_enter)

lemma bounds_closeDoors_enter:
  "minFloor (snd (closeDoors_enter k s)) = minFloor s \<and>
   maxFloor (snd (closeDoors_enter k s)) = maxFloor s"
  by (simp add: closeDoors_enter_def bounds_after_close)

lemma bounds_openDoors_opened:
  "minFloor (openDoors_opened s) = minFloor s \<and> maxFloor (openDoors_opened s) = maxFloor s"
  by (simp add: openDoors_opened_def)

lemma bounds_loop_step:
  "minFloor (snd (loop_step (p, s))) = minFloor s \<and> maxFloor (snd (loop_step (p, s))) = maxFloor s"
  by (cases p)
    (simp_all add: loop_test_def Let_def moveOneFloor_arrive_def openDoors_enter_def
      bounds_moveOneFloor_enter bounds_after_close bounds_closeDoors_enter
      bounds_openDoors_opened)

lemma conf_in_range_transfer:
  "conf_in_range (q, s) \<Longrightarrow> in_range s' \<Longrightarrow> minFloor s' = minFloor s \<Longrightarrow>
     maxFloor s' = maxFloor s \<Longrightarrow> conf_in_range (q, s')"
  by (cases q) simp_all

lemma sys_in_range_step: "step cf cf' \<Longrightarrow> sys_in_range cf \<Longrightarrow> sys_in_range cf'"
proof (induction rule: step.induct)
  case (resume i ps s p' s')
  then have all: "\<And>q. q \<in> set ps \<Longrightarrow> conf_in_range (q, s)"
    by (simp add: sys_in_range_def)
  have "conf_in_range (loop_step (ps ! i, s))"
    using all resume.hyps(1) by - (rule conf_in_range_loop_step, simp)
  then have new: "conf_in_range (p', s')" using resume.hyps(3) by simp
  then have r: "in_range s'" by (rule conf_in_range_D)
  have b: "minFloor s' = minFloor s" "maxFloor s' = maxFloor s"
    using bounds_loop_step [of "ps ! i" s] resume.hyps(3) by simp_all
  have "conf_in_range (q, s')" if "q \<in> set (ps[i := p'])" for q
  proof (cases "q = p'")
    case True
    then show ?thesis using new by simp
  next
    case False
    then have "q \<in> set ps" using that set_update_subset_insert by fastforce
    then show ?thesis using all r b conf_in_range_transfer by blast
  qed
  then show ?case using r by (simp add: sys_in_range_def)
next
  case (extern ps s e)
  then have all: "\<And>q. q \<in> set ps \<Longrightarrow> conf_in_range (q, s)" and r: "in_range s"
    by (simp_all add: sys_in_range_def)
  have r': "in_range (apply_event e s)" using r by (rule in_range_apply_event)
  have "conf_in_range (q, apply_event e s)" if "q \<in> set ps" for q
    using all [OF that] r' by (rule conf_in_range_transfer) simp_all
  then show ?case using r' by (simp add: sys_in_range_def)
next
  case (begin_loop s ps)
  then have all: "\<And>q. q \<in> set ps \<Longrightarrow> conf_in_range (q, s)" and r: "in_range s"
    by (simp_all add: sys_in_range_def)
  have "conf_in_range (q, s\<lparr>running := True\<rparr>)" if "q \<in> set ps" for q
    using all [OF that] by (rule conf_in_range_transfer) (simp_all add: r)
  then show ?case using r by (auto simp: sys_in_range_def)
qed

lemma moveOneFloor_boundary:
  "\<not> doorsOpen s \<Longrightarrow> direction s \<noteq> Idle \<Longrightarrow> \<not> validFloor s (JInt (targetFloor s)) \<Longrightarrow>
     moveOneFloor s = s\<lparr>direction := Idle\<rparr> \<and>
     moveOneFloor_enter s = (LoopTest, s\<lparr>direction := Idle\<rparr>)"
  by (simp add: moveOneFloor_def moveOneFloor_enter_def)

text \<open>
  Claim C5. A constructed elevator with \<open>minFloor < maxFloor\<close> has its current floor,
  its panel requests and the keys of its hall-call map within \<open>[minFloor, maxFloor]\<close>;
  \<open>pressFloor\<close>, \<open>callFrom\<close>, the movement step, the door operations and the passes of
  the control loop keep it so, and so does every step of the system, with any number of
  loops at their suspension points and interleaved calls (where the target of each hop
  in progress is in range as well). A movement step with closed doors whose target floor
  is out of range sets the direction to Idle and does not change the current floor.
\<close>

theorem range_invariant:
  "(minFloor (constructor c) < maxFloor (constructor c) \<longrightarrow> in_range (constructor c)) \<and>
   (in_range s \<longrightarrow>
      in_range (apply_event (PressFloor v) s) \<and> in_range (apply_event (CallFrom v d) s) \<and>
      in_range (moveOneFloor s) \<and>
      in_range (openDoors s) \<and> in_range (closeDoors s) \<and> in_range (loopBody s) \<and>
      in_range (whileRunning n s)) \<and>
   (sys_in_range cf \<and> step cf cf' \<longrightarrow> sys_in_range cf') \<and>
   (\<not> doorsOpen s \<and> direction s \<noteq> Idle \<and> \<not> validFloor s (JInt (targetFloor s)) \<longrightarrow>
      moveOneFloor s = s\<lparr>direction := Idle\<rparr> \<and>
      currentFloor (moveOneFloor s) = currentFloor s)"
proof (intro conjI impI)
  assume "minFloor (constructor c) < maxFloor (constructor c)"
  then show "in_range (constructor c)"
    by (simp add: in_range_def constructor_def)
next
  assume "sys_in_range cf \<and> step cf cf'"
  then show "sys_in_range cf'" using sys_in_range_step by blast
next
  assume b: "\<not> doorsOpen s \<and> direction s \<noteq> Idle \<and> \<not> validFloor s (JInt (targetFloor s))"
  then show m: "moveOneFloor s = s\<lparr>direction := Idle\<rparr>"
    using moveOneFloor_boundary by blast
  show "currentFloor (moveOneFloor s) = currentFloor s"
    by (simp add: m)
qed (simp_all add: in_range_pressFloor in_range_callFrom in_range_moveOneFloor in_range_openDoors
      in_range_closeDoors in_range_loopBody in_range_whileRunning)

theorem range_invariant_witness:
  "in_range (constructor (floors 1 5)) \<and>
   in_range (moveOneFloor ((constructor (floors 1 5))\<lparr>currentFloor := 5, direction := Up\<rparr>)) \<and>
   moveOneFloor ((constructor (floors 1 5))\<lparr>currentFloor := 5, direction := Up\<rparr>) =
     (constructor (floors 1 5))\<lparr>currentFloor := 5, direction := Idle\<rparr> \<and>
   sys_in_range ([], apply_event (PressFloor (JInt 3)) (constructor (floors 1 5)))"
proof -
  let ?s = "(constructor (floors 1 5))\<lparr>currentFloor := 5, direction := Up\<rparr>"
  let ?cf = "([], constructor (floors 1 5))"
  let ?cf' = "([], apply_event (PressFloor (JInt 3)) (constructor (floors 1 5)))"
  have r: "in_range ?s"
    by (simp add: in_range_def constructor_def floors_def dflt_def)
  have c: "sys_in_range ?cf"
    by (simp add: sys_in_range_def in_range_def constructor_def floors_def dflt_def)
  have st: "step ?cf ?cf'" by (rule step.extern)
  have b: "\<not> doorsOpen ?s \<and> direction ?s \<noteq> Idle \<and> \<not> validFloor ?s (JInt (targetFloor ?s))"
    by (simp add: constructor_def floors_def dflt_def validFloor_def targetFloor_def)
  have m: "minFloor (constructor (floors 1 5)) < maxFloor (constructor (floors 1 5))"
    by (simp add: constructor_def floors_def dflt_def)
  show ?thesis
    using range_invariant [of "floors 1 5" ?s "JInt 3" "JStr ''up''" 1 ?cf ?cf'] r c st b m
    by simp
qed

subsection \<open>Demand at the car's own floor\<close>

lemma no_side_demand:
  assumes "demand_floors s = {currentFloor s}"
  shows "filter (\<lambda>f. f > currentFloor s) (targets s) = []"
    and "filter (\<lambda>f. f < currentFloor s) (targets s) = []"
  using assms by (simp_all add: filter_empty_conv set_targets)

lemma decideDirection_own_floor:
  assumes "demand_floors s = {currentFloor s}"
  shows "decideDirection s = Idle"
  using no_side_demand [OF assms] by (simp add: decideDirection_def Let_def)

lemma demand_floors_direction [simp]: "demand_floors (s\<lparr>direction := d\<rparr>) = demand_floors s"
  by (simp add: demand_floors_def)

lemma loopBody_own_floor:
  "demand_floors s = {currentFloor s} \<Longrightarrow> loopBody s = s\<lparr>direction := Idle\<rparr>"
  by (simp add: loopBody_def Let_def decideDirection_own_floor)

lemma whileRunning_own_floor:
  "demand_floors s = {currentFloor s} \<Longrightarrow>
     whileRunning n s = s \<or> whileRunning n s = s\<lparr>direction := Idle\<rparr>"
proof (induction n arbitrary: s)
  case 0
  then show ?case by simp
next
  case (Suc n)
  have "demand_floors (s\<lparr>direction := Idle\<rparr>) = {currentFloor (s\<lparr>direction := Idle\<rparr>)}"
    using Suc.prems by simp
  from Suc.IH [OF this] show ?case
    using Suc.prems by (auto simp: loopBody_own_floor)
qed

text \<open>
  Claim C9. When there is demand and every demand floor is the current floor, the
  direction decision is Idle whatever the direction was; a pass of the loop then only
  sets the direction to Idle and goes to the idle sleep, without a hop or a door
  operation, so after any number of passes (no other call arriving in between) the
  panel requests and the hall calls are what they were: the demand at the car's own
  floor stays pending.
\<close>

theorem own_floor_demand_never_served:
  assumes "demand_floors s = {currentFloor s}"
  shows "decideDirection s = Idle \<and>
         loopBody s = s\<lparr>direction := Idle\<rparr> \<and>
         loop_step (LoopTest, s) =
           (if running s then (IdleSleep, s\<lparr>direction := Idle\<rparr>) else (Exited, s)) \<and>
         (\<forall>n. requests (whileRunning n s) = requests s \<and> calls (whileRunning n s) = calls s \<and>
              currentFloor (whileRunning n s) = currentFloor s \<and>
              doorsOpen (whileRunning n s) = doorsOpen s)"
proof (intro conjI allI)
  show "decideDirection s = Idle" by (rule decideDirection_own_floor [OF assms])
  show "loopBody s = s\<lparr>direction := Idle\<rparr>" by (rule loopBody_own_floor [OF assms])
  show "loop_step (LoopTest, s) =
           (if running s then (IdleSleep, s\<lparr>direction := Idle\<rparr>) else (Exited, s))"
    by (simp add: loop_test_def Let_def decideDirection_own_floor [OF assms])
next
  fix n
  note w = whileRunning_own_floor [OF assms, of n]
  show "requests (whileRunning n s) = requests s" using w by auto
  show "calls (whileRunning n s) = calls s" using w by auto
  show "currentFloor (whileRunning n s) = currentFloor s" using w by auto
  show "doorsOpen (whileRunning n s) = doorsOpen s" using w by auto
qed

theorem own_floor_demand_never_served_witness:
  "decideDirection ((apply_event (PressFloor (JInt 1)) (constructor (floors 1 5)))\<lparr>running := True\<rparr>) = Idle \<and>
   requests (whileRunning 7 ((apply_event (PressFloor (JInt 1)) (constructor (floors 1 5)))\<lparr>running := True\<rparr>)) = [1] \<and>
   currentFloor (whileRunning 7 ((apply_event (PressFloor (JInt 1)) (constructor (floors 1 5)))\<lparr>running := True\<rparr>)) = 1"
proof -
  let ?s = "(apply_event (PressFloor (JInt 1)) (constructor (floors 1 5)))\<lparr>running := True\<rparr>"
  have d: "demand_floors ?s = {currentFloor ?s}"
    by (simp add: demand_floors_def constructor_def floors_def dflt_def validFloor_def Set_add_def)
  have r: "requests ?s = [1]" "currentFloor ?s = 1"
    by (simp_all add: constructor_def floors_def dflt_def validFloor_def Set_add_def)
  show ?thesis
    using own_floor_demand_never_served [OF d] r by simp
qed

subsection \<open>Movement and the doors\<close>

lemma travel_closed_moveOneFloor_enter: "travel_closed (moveOneFloor_enter s)"
  by (simp add: moveOneFloor_enter_def)

lemma travel_closed_after_close: "travel_closed (after_close k s)"
  by (cases k) (simp_all add: after_close_def travel_closed_moveOneFloor_enter)

lemma travel_closed_closeDoors_enter: "travel_closed (closeDoors_enter k s)"
  by (simp add: closeDoors_enter_def travel_closed_after_close)

lemma travel_closed_loop_step: "travel_closed (loop_step (p, s))"
  by (cases p)
    (simp_all add: loop_test_def Let_def moveOneFloor_arrive_def openDoors_enter_def
      travel_closed_moveOneFloor_enter travel_closed_after_close travel_closed_closeDoors_enter)

lemma apply_event_car [simp]:
  "currentFloor (apply_event e s) = currentFloor s" "doorsOpen (apply_event e s) = doorsOpen s"
  by (cases e; simp add: stop_def)+

lemma travel_closed_doors:
  "doorsOpen s' = doorsOpen s \<Longrightarrow> travel_closed (q, s') = travel_closed (q, s)"
  by (cases q) simp_all

lemma live_single:
  assumes "length (live ps) \<le> 1" "i < length ps" "ps ! i \<noteq> Exited" "j < length ps" "j \<noteq> i"
  shows "ps ! j = Exited"
proof -
  have split: "ps = take i ps @ ps ! i # drop (Suc i) ps"
    using assms(2) by (rule id_take_nth_drop)
  have "live ps = live (take i ps) @ ps ! i # live (drop (Suc i) ps)"
    using assms(3) by (subst split) (simp add: live_def)
  then have e: "live (take i ps) = []" "live (drop (Suc i) ps) = []"
    using assms(1) by simp_all
  show ?thesis
  proof (cases "j < i")
    case True
    then have "take i ps ! j = ps ! j" "j < length (take i ps)"
      using assms(2) by simp_all
    then have "ps ! j \<in> set (take i ps)" by (metis nth_mem)
    then show ?thesis using e(1) by (auto simp: live_def filter_empty_conv)
  next
    case False
    then have "Suc i \<le> j" using assms(5) by simp
    then have "drop (Suc i) ps ! (j - Suc i) = ps ! j" "j - Suc i < length (drop (Suc i) ps)"
      using assms(4) by simp_all
    then have "ps ! j \<in> set (drop (Suc i) ps)" by (metis nth_mem)
    then show ?thesis using e(2) by (auto simp: live_def filter_empty_conv)
  qed
qed

text \<open>
  While at most one loop is live, a loop is in its travel sleep only with the doors
  closed: the invariant that a single loop keeps.
\<close>

lemma single_loop_travel_closed:
  "step cf cf' \<Longrightarrow> all_travel_closed cf \<Longrightarrow> length (live (fst cf)) \<le> 1 \<Longrightarrow>
     all_travel_closed cf'"
proof (induction rule: step.induct)
  case (resume i ps s p' s')
  have new: "travel_closed (p', s')"
    using travel_closed_loop_step [of "ps ! i" s] resume.hyps(3) by simp
  have "travel_closed (q, s')" if "q \<in> set (ps[i := p'])" for q
  proof -
    from that obtain j where j: "j < length ps" "q = ps[i := p'] ! j"
      by (metis in_set_conv_nth length_list_update)
    show ?thesis
    proof (cases "j = i")
      case True
      then show ?thesis using j new by simp
    next
      case False
      then have "ps ! j = Exited"
        using live_single [of ps i j] resume.hyps(1,2) resume.prems(2) j(1) by simp
      then show ?thesis using j False by simp
    qed
  qed
  then show ?case by (simp add: all_travel_closed_def)
next
  case (extern ps s e)
  then show ?case
    by (simp add: all_travel_closed_def travel_closed_doors [of "apply_event e s" s])
next
  case (begin_loop s ps)
  then show ?case
    by (auto simp: all_travel_closed_def travel_closed_doors [of "s\<lparr>running := True\<rparr>" s])
qed

lemma floor_moveOneFloor_enter: "currentFloor (snd (moveOneFloor_enter s)) = currentFloor s"
  by (simp add: moveOneFloor_enter_def)

lemma floor_after_close: "currentFloor (snd (after_close k s)) = currentFloor s"
  by (cases k) (simp_all add: after_close_def floor_moveOneFloor_enter)

lemma floor_closeDoors_enter: "currentFloor (snd (closeDoors_enter k s)) = currentFloor s"
  by (simp add: closeDoors_enter_def floor_after_close)

lemma floor_openDoors_opened: "currentFloor (openDoors_opened s) = currentFloor s"
  by (simp add: openDoors_opened_def)

lemma floor_loop_step:
  "\<forall>t. p \<noteq> TravelSleep t \<Longrightarrow> currentFloor (snd (loop_step (p, s))) = currentFloor s"
  by (cases p)
    (simp_all add: loop_test_def Let_def floor_moveOneFloor_enter floor_after_close
      floor_closeDoors_enter floor_openDoors_opened)

text \<open>Where that invariant holds, a step with open doors does not move the car.\<close>

lemma open_doors_keep_floor:
  assumes "step (ps, s) (ps', s')" "all_travel_closed (ps, s)" "doorsOpen s"
  shows "currentFloor s' = currentFloor s"
  using assms(1)
proof (cases rule: step.cases)
  case (resume i p')
  have "travel_closed (ps ! i, s)"
    using assms(2) resume(2) by (simp add: all_travel_closed_def)
  then have "\<forall>t. ps ! i \<noteq> TravelSleep t"
    using assms(3) by (cases "ps ! i") auto
  then have "currentFloor (snd (loop_step (ps ! i, s))) = currentFloor s"
    by (rule floor_loop_step)
  with resume show ?thesis by simp
next
  case (extern e)
  then show ?thesis by simp
next
  case begin_loop
  then show ?thesis by simp
qed

lemma moveOneFloor_refuses:
  "doorsOpen s \<Longrightarrow> moveOneFloor s = s \<and> moveOneFloor_enter s = (LoopTest, s)"
  by (simp add: moveOneFloor_def moveOneFloor_enter_def)

lemma reachable_extern: "reachable (ps, s) \<Longrightarrow> reachable (ps, apply_event e s)"
  using reachable.next_conf step.extern by blast

lemma reachable_begin_loop:
  "reachable (ps, s) \<Longrightarrow> \<not> running s \<Longrightarrow> reachable (ps @ [LoopTest], s\<lparr>running := True\<rparr>)"
  using reachable.next_conf step.begin_loop by blast

lemma reachable_resume:
  "reachable (ps, s) \<Longrightarrow> i < length ps \<Longrightarrow> ps ! i \<noteq> Exited \<Longrightarrow>
     loop_step (ps ! i, s) = (p', s') \<Longrightarrow> reachable (ps[i := p'], s')"
  using reachable.next_conf step.resume by blast

lemmas demo_defs =
  constructor_def floors_def dflt_def validFloor_def normalizeDirection_def Set_add_def
  Set_delete_def Let_def loop_test_def decideDirection_def targets_def moveOneFloor_enter_def
  targetFloor_def moveOneFloor_arrive_def shouldOpen_def openDoors_enter_def openDoors_opened_def
  fulfilRequest_def fulfilCalls_def closeDoors_enter_def after_close_def

text \<open>
  Claim C4: the car never moves while its doors are open, that is, in every reachable
  state a step taken with \<open>doorsOpen\<close> true leaves \<open>currentFloor\<close> unchanged. The
  movement operation does return without moving when it finds the doors open (lemma
  \<open>moveOneFloor_refuses\<close>), and a single loop keeps the property (lemmas
  \<open>single_loop_travel_closed\<close> and \<open>open_doors_keep_floor\<close>), but the code does not
  keep it for every sequence of operations: here is a reachable state with open doors
  and a step from it that moves the car. On floors 1 to 5, \<open>callFrom(2, "up")\<close> and
  \<open>pressFloor(3)\<close> are registered and \<open>start\<close> is called: the loop moves the car to
  floor 2 and begins
  to open the doors. During that sleep a caller calls \<open>stop\<close> and then \<open>start\<close>;
  \<open>_running\<close> is false, so a second loop begins, decides Up, finds the doors still
  closed at line 153 and goes into its travel sleep. The first loop then resumes and
  sets \<open>doorsOpen\<close> (line 78); the second loop resumes after it and sets
  \<open>currentFloor\<close> to 3 (line 167) with the doors open. With the default durations
  (400 ms of travel, 700 ms for the doors) this is \<open>stop\<close> and \<open>start\<close> 800 ms after
  the first \<open>start\<close>.
\<close>

theorem second_loop_moves_with_open_doors:
  "reachable ([CloseSleep ThenLoop, TravelSleep 3],
     (constructor (floors 1 5))
       \<lparr>running := True, direction := Up, currentFloor := 2, doorsOpen := True,
        requests := [3]\<rparr>) \<and>
   step ([CloseSleep ThenLoop, TravelSleep 3],
     (constructor (floors 1 5))
       \<lparr>running := True, direction := Up, currentFloor := 2, doorsOpen := True,
        requests := [3]\<rparr>)
     ([CloseSleep ThenLoop, LoopTest],
     (constructor (floors 1 5))
       \<lparr>running := True, direction := Up, currentFloor := 3, doorsOpen := True,
        requests := [3]\<rparr>)"
proof -
  let ?s0 = "constructor (floors 1 5)"
  let ?s1 = "?s0\<lparr>calls := [(2, [Up])]\<rparr>"
  let ?s2 = "?s0\<lparr>calls := [(2, [Up])], requests := [3]\<rparr>"
  let ?s3 = "?s2\<lparr>running := True\<rparr>"
  let ?s4 = "?s3\<lparr>direction := Up\<rparr>"
  let ?s5 = "?s4\<lparr>currentFloor := 2\<rparr>"
  let ?s6 = "?s5\<lparr>running := False\<rparr>"
  let ?s9 = "?s0\<lparr>running := True, direction := Up, currentFloor := 2, doorsOpen := True,
        requests := [3]\<rparr>"
  let ?s10 = "?s0\<lparr>running := True, direction := Up, currentFloor := 3, doorsOpen := True,
        requests := [3]\<rparr>"
  have r0: "reachable ([], ?s0)" by (rule reachable.init)
  have r1: "reachable ([], ?s1)"
    using reachable_extern [OF r0, of "CallFrom (JInt 2) (JStr ''up'')"]
    by (simp add: demo_defs)
  have r2: "reachable ([], ?s2)"
    using reachable_extern [OF r1, of "PressFloor (JInt 3)"] by (simp add: demo_defs)
  have r3: "reachable ([LoopTest], ?s3)"
    using reachable_begin_loop [OF r2] by (simp add: demo_defs)
  have r4: "reachable ([TravelSleep 2], ?s4)"
    using reachable_resume [OF r3, of 0 "TravelSleep 2" ?s4] by (simp add: demo_defs)
  have r5: "reachable ([OpenSleep], ?s5)"
    using reachable_resume [OF r4, of 0 OpenSleep ?s5] by (simp add: demo_defs)
  have r6: "reachable ([OpenSleep], ?s6)"
    using reachable_extern [OF r5, of Stop] by (simp add: stop_def)
  have r7: "reachable ([OpenSleep, LoopTest], ?s5)"
    using reachable_begin_loop [OF r6] by (simp add: demo_defs)
  have r8: "reachable ([OpenSleep, TravelSleep 3], ?s5)"
    using reachable_resume [OF r7, of 1 "TravelSleep 3" ?s5] by (simp add: demo_defs)
  have r9: "reachable ([CloseSleep ThenLoop, TravelSleep 3], ?s9)"
    using reachable_resume [OF r8, of 0 "CloseSleep ThenLoop" ?s9] by (simp add: demo_defs)
  have "step ([CloseSleep ThenLoop, TravelSleep 3], ?s9)
          ([CloseSleep ThenLoop, TravelSleep 3][1 := LoopTest], ?s10)"
    by (rule step.resume) (simp_all add: demo_defs)
  then show ?thesis using r9 by simp
qed

subsection \<open>Two calls at one floor\<close>

lemma both_calls_registered:
  assumes "minFloor s \<le> 1" "3 \<le> maxFloor s" "calls s = []"
  shows "apply_event (CallFrom (JInt 2) (JStr ''down'')) (apply_event (CallFrom (JInt 2) (JStr ''up'')) s) =
           s\<lparr>calls := [(2, [Up, Down])]\<rparr>"
  using assms by (simp add: validFloor_def normalizeDirection_def Set_add_def Let_def)

lemma decide_up_from_1:
  assumes "currentFloor s = 1" "direction s = Idle" "requests s = []" "calls s = [(2, ds)]"
  shows "decideDirection s = Up"
  using assms by (simp add: decideDirection_def targets_def Set_add_def)

lemma stop_at_2_moving_up:
  assumes "currentFloor s = 1" "direction s = Up" "\<not> doorsOpen s" "requests s = []"
    "calls s = [(2, [Up, Down])]" "minFloor s \<le> 1" "3 \<le> maxFloor s"
  shows "moveOneFloor s = s\<lparr>currentFloor := 2, calls := [(2, [Down])]\<rparr>"
proof -
  let ?a = "s\<lparr>currentFloor := 2\<rparr>"
  have t: "targetFloor s = 2" using assms by (simp add: targetFloor_def)
  have v: "validFloor s (JInt 2)" using assms by (simp add: validFloor_def)
  have so: "shouldOpen ?a" using assms by (simp add: shouldOpen_def)
  have op: "openDoors_opened ?a = s\<lparr>currentFloor := 2, doorsOpen := True, calls := [(2, [Down])]\<rparr>"
    using assms
    by (simp add: openDoors_opened_def fulfilRequest_def fulfilCalls_def Set_delete_def Let_def)
  have "openDoors ?a = s\<lparr>currentFloor := 2, calls := [(2, [Down])]\<rparr>"
    using assms by (simp add: openDoors_def op closeDoors_def)
  then show ?thesis
    using assms(2,3) t v so by (simp add: moveOneFloor_def Let_def)
qed

text \<open>
  Claim C3, as the code has it. The car is idle at floor 1 with closed doors and no
  demand, on floors that include 1 to 3; \<open>callFrom(2, "up")\<close> and \<open>callFrom(2, "down")\<close>
  are registered, then the loop is started and makes one pass. The decision is Up, the
  car moves to floor 2 and opens and closes its doors there; since the direction is Up
  at that moment, the stop fulfils the call \<open>(2, up)\<close> only, and the call \<open>(2, down)\<close>
  is still pending after it.
\<close>

theorem both_calls_one_stop:
  assumes "currentFloor s = 1" "direction s = Idle" "\<not> doorsOpen s" "requests s = []"
    "calls s = []" "minFloor s \<le> 1" "3 \<le> maxFloor s" "\<not> running s"
  shows "hall_calls (apply_event (CallFrom (JInt 2) (JStr ''down'')) (apply_event (CallFrom (JInt 2) (JStr ''up'')) s)) =
           {(2, Up), (2, Down)} \<and>
         decideDirection (apply_event (CallFrom (JInt 2) (JStr ''down'')) (apply_event (CallFrom (JInt 2) (JStr ''up'')) s)) = Up \<and>
         start 1 (apply_event (CallFrom (JInt 2) (JStr ''down'')) (apply_event (CallFrom (JInt 2) (JStr ''up'')) s)) =
           s\<lparr>running := True, direction := Up, currentFloor := 2, calls := [(2, [Down])]\<rparr> \<and>
         hall_calls (start 1 (apply_event (CallFrom (JInt 2) (JStr ''down'')) (apply_event (CallFrom (JInt 2) (JStr ''up'')) s))) =
           {(2, Down)}"
proof -
  let ?s0 = "apply_event (CallFrom (JInt 2) (JStr ''down'')) (apply_event (CallFrom (JInt 2) (JStr ''up'')) s)"
  let ?r = "s\<lparr>calls := [(2, [Up, Down])], running := True\<rparr>"
  have s0: "?s0 = s\<lparr>calls := [(2, [Up, Down])]\<rparr>"
    by (rule both_calls_registered [OF assms(6,7,5)])
  have h0: "hall_calls ?s0 = {(2, Up), (2, Down)}"
    unfolding s0 by (auto simp: hall_calls_def split: if_splits)
  have d0: "decideDirection ?s0 = Up"
    unfolding s0 using assms by (simp add: decide_up_from_1 [where ds = "[Up, Down]"])
  have d: "decideDirection ?r = Up"
    using assms by (simp add: decide_up_from_1 [where ds = "[Up, Down]"])
  have m: "moveOneFloor (?r\<lparr>direction := Up\<rparr>) =
             ?r\<lparr>direction := Up, currentFloor := 2, calls := [(2, [Down])]\<rparr>"
    using assms by (subst stop_at_2_moving_up) simp_all
  have b: "loopBody ?r = ?r\<lparr>direction := Up, currentFloor := 2, calls := [(2, [Down])]\<rparr>"
    using assms m by (simp add: loopBody_def Let_def d)
  have st: "start 1 ?s0 = s\<lparr>running := True, direction := Up, currentFloor := 2, calls := [(2, [Down])]\<rparr>"
    unfolding s0 using assms b by (simp add: start_def)
  have h1: "hall_calls (start 1 ?s0) = {(2, Down)}"
    unfolding st by (auto simp: hall_calls_def split: if_splits)
  show ?thesis using h0 d0 st h1 by blast
qed

theorem both_calls_one_stop_witness:
  "start 1 (apply_event (CallFrom (JInt 2) (JStr ''down'')) (apply_event (CallFrom (JInt 2) (JStr ''up''))
      (constructor (floors 1 5)))) =
     (constructor (floors 1 5))
       \<lparr>running := True, direction := Up, currentFloor := 2, calls := [(2, [Down])]\<rparr>"
  using both_calls_one_stop [of "constructor (floors 1 5)"]
  by (simp add: constructor_def floors_def dflt_def)

text \<open>
  The statement of C3 that the single stop clears both entries fails on floors 1 to 5:
  after the stop at floor 2 the call \<open>(2, down)\<close> is in the map, and it still is after
  further passes of the loop.
\<close>

theorem both_calls_one_stop_counterexample:
  "currentFloor (start 1 (apply_event (CallFrom (JInt 2) (JStr ''down'')) (apply_event (CallFrom (JInt 2) (JStr ''up''))
      (constructor (floors 1 5))))) = 2 \<and>
   direction (start 1 (apply_event (CallFrom (JInt 2) (JStr ''down'')) (apply_event (CallFrom (JInt 2) (JStr ''up''))
      (constructor (floors 1 5))))) = Up \<and>
   calls (start 1 (apply_event (CallFrom (JInt 2) (JStr ''down'')) (apply_event (CallFrom (JInt 2) (JStr ''up''))
      (constructor (floors 1 5))))) = [(2, [Down])] \<and>
   (2, Down) \<in> hall_calls (start 1 (apply_event (CallFrom (JInt 2) (JStr ''down''))
      (apply_event (CallFrom (JInt 2) (JStr ''up'')) (constructor (floors 1 5))))) \<and>
   calls (start 4 (apply_event (CallFrom (JInt 2) (JStr ''down'')) (apply_event (CallFrom (JInt 2) (JStr ''up''))
      (constructor (floors 1 5))))) = [(2, [Down])]"
  by (simp add: demo_defs start_def loopBody_def moveOneFloor_def openDoors_def closeDoors_def
      hall_calls_def eval_nat_numeral)

subsection \<open>No empty direction set in the hall-call map\<close>

text \<open>
  \<open>callFrom\<close> adds a direction to every entry it creates and \<open>openDoors\<close> deletes an
  entry it has emptied, so no reachable configuration has an empty set in the map.
\<close>

lemma set_map_entry_subset:
  "set (AList.map_entry k f al) \<subseteq> set al \<union> {(k, f v) |v. True}"
  by (induction al) auto

lemma map_entry_update_new:
  "map_of al k = None \<Longrightarrow> AList.map_entry k f (AList.update k v al) = al @ [(k, f v)]"
  by (induction al) (auto split: if_splits)

lemma Set_add_nonempty [simp]: "Set_add x xs \<noteq> []"
  by (auto simp: Set_add_def)

lemma Nil_neq_Set_add [simp]: "[] \<noteq> Set_add x xs"
  by (auto simp: Set_add_def)

lemma set_update_subset: "set (AList.update k v al) \<subseteq> insert (k, v) (set al)"
  by (induction al) auto

lemma set_delete_subset: "set (AList.delete k al) \<subseteq> set al"
  by (auto simp: AList.delete_eq)

lemma calls_wf_callFrom: "calls_wf s \<Longrightarrow> calls_wf (apply_event (CallFrom v d) s)"
proof (cases v)
  case (JInt n)
  assume w: "calls_wf s"
  have a: "[] \<notin> snd ` set (AList.map_entry n (Set_add dir) (calls s))" for dir
  proof
    assume "[] \<in> snd ` set (AList.map_entry n (Set_add dir) (calls s))"
    then obtain k where "(k, []) \<in> set (AList.map_entry n (Set_add dir) (calls s))" by force
    then have "(k, []) \<in> set (calls s) \<or> (\<exists>v. [] = Set_add dir v)"
      using set_map_entry_subset [of n "Set_add dir" "calls s"] by auto
    moreover have "[] \<in> snd ` set (calls s)" if "(k, []) \<in> set (calls s)"
      using that by (rule image_eqI [rotated]) simp
    moreover have "[] \<noteq> Set_add dir v" for v
      by (rule Set_add_nonempty [THEN not_sym])
    ultimately show False using w by (auto simp: calls_wf_def)
  qed
  have b: "[] \<notin> snd ` set (AList.map_entry n (Set_add dir) (AList.update n [] (calls s)))"
    if "map_of (calls s) n = None" for dir
    using w by (auto simp: map_entry_update_new [OF that] calls_wf_def)
  show ?thesis
    using w a b unfolding JInt by (cases "map_of (calls s) n") (auto simp: calls_wf_def Let_def)
qed simp_all

lemma calls_wf_pressFloor: "calls_wf s \<Longrightarrow> calls_wf (apply_event (PressFloor v) s)"
  by (simp add: calls_wf_def)

lemma calls_wf_frame [simp]:
  "calls_wf (s\<lparr>direction := d\<rparr>) = calls_wf s" "calls_wf (s\<lparr>doorsOpen := b\<rparr>) = calls_wf s"
  "calls_wf (s\<lparr>running := r\<rparr>) = calls_wf s" "calls_wf (s\<lparr>currentFloor := t\<rparr>) = calls_wf s"
  "calls_wf (s\<lparr>requests := q\<rparr>) = calls_wf s"
  by (simp_all add: calls_wf_def)

lemma calls_wf_fulfilCalls: "calls_wf s \<Longrightarrow> calls_wf (fulfilCalls s)"
proof -
  assume w: "calls_wf s"
  have d: "[] \<notin> snd ` set (AList.delete k (calls s))" for k
    using w set_delete_subset [of k "calls s"] by (fastforce simp: calls_wf_def)
  have u: "[] \<notin> snd ` set (AList.update k v (calls s))" if "v \<noteq> []" for k v
    using w that set_update_subset [of k v "calls s"] by (fastforce simp: calls_wf_def)
  show ?thesis
    using w d u
    by (auto simp: fulfilCalls_def Let_def calls_wf_def delete_update_same split: option.splits)
qed

lemma calls_wf_openDoors_opened: "calls_wf s \<Longrightarrow> calls_wf (openDoors_opened s)"
  unfolding openDoors_opened_def
  by (rule calls_wf_fulfilCalls) (simp add: fulfilRequest_def)

lemma calls_wf_apply_event: "calls_wf s \<Longrightarrow> calls_wf (apply_event e s)"
  by (cases e) (simp_all add: calls_wf_callFrom calls_wf_pressFloor stop_def)

lemma calls_wf_moveOneFloor_enter: "calls_wf s \<Longrightarrow> calls_wf (snd (moveOneFloor_enter s))"
  by (simp add: moveOneFloor_enter_def)

lemma calls_wf_after_close: "calls_wf s \<Longrightarrow> calls_wf (snd (after_close k s))"
  by (cases k) (simp_all add: after_close_def calls_wf_moveOneFloor_enter)

lemma calls_wf_closeDoors_enter: "calls_wf s \<Longrightarrow> calls_wf (snd (closeDoors_enter k s))"
  by (simp add: closeDoors_enter_def calls_wf_after_close)

lemma calls_wf_loop_step: "calls_wf s \<Longrightarrow> calls_wf (snd (loop_step (p, s)))"
  by (cases p)
    (simp_all add: loop_test_def Let_def moveOneFloor_arrive_def openDoors_enter_def
      calls_wf_moveOneFloor_enter calls_wf_after_close calls_wf_closeDoors_enter
      calls_wf_openDoors_opened)

lemma calls_wf_step: "step cf cf' \<Longrightarrow> calls_wf (snd cf) \<Longrightarrow> calls_wf (snd cf')"
proof (induction rule: step.induct)
  case (resume i ps s p' s')
  then show ?case using calls_wf_loop_step [of s "ps ! i"] by simp
next
  case (extern ps s e)
  then show ?case by (simp add: calls_wf_apply_event)
next
  case (begin_loop s ps)
  then show ?case by simp
qed

lemma reachable_calls_wf: "reachable cf \<Longrightarrow> calls_wf (snd cf)"
proof (induction rule: reachable.induct)
  case (init c)
  show ?case by (simp add: calls_wf_def constructor_def)
next
  case (next_conf cf cf')
  then show ?case using calls_wf_step by blast
qed

lemma reachable_no_empty_entry: "reachable (ps, s) \<Longrightarrow> map_of (calls s) f \<noteq> Some []"
proof
  assume "reachable (ps, s)" and "map_of (calls s) f = Some []"
  then have "calls_wf s" and "(f, []) \<in> set (calls s)"
    using reachable_calls_wf map_of_SomeD by fastforce+
  then show False by (force simp: calls_wf_def)
qed

subsection \<open>A pass of the loop, step by step\<close>

text \<open>
  \<open>loopBody\<close> is one pass through the loop with nothing interleaved: from the loop test
  of a running elevator, the loop with its suspension points arrives at the loop test
  again in the state that \<open>loopBody\<close> computes.
\<close>

lemma runs_to_refl: "runs_to cf cf"
  unfolding runs_to_def by (rule exI [of _ 0]) simp

lemma runs_to_step: "runs_to (loop_step cf) cf' \<Longrightarrow> runs_to cf cf'"
  unfolding runs_to_def
proof -
  assume "\<exists>n. (loop_step ^^ n) (loop_step cf) = cf'"
  then obtain n where "(loop_step ^^ n) (loop_step cf) = cf'" ..
  then have "(loop_step ^^ Suc n) cf = cf'" by (simp add: funpow_swap1)
  then show "\<exists>n. (loop_step ^^ n) cf = cf'" ..
qed

lemma doorsOpen_openDoors_opened: "doorsOpen (openDoors_opened s)"
  by (simp add: openDoors_opened_def)

lemma runs_to_open_sleep: "runs_to (OpenSleep, s) (LoopTest, closeDoors (openDoors_opened s))"
proof (cases "doorDwellMs (openDoors_opened s) > 0")
  case True
  show ?thesis
    apply (rule runs_to_step)
    apply (rule runs_to_step)
    apply (rule runs_to_step)
    using True
    by (simp add: Let_def closeDoors_enter_def after_close_def doorsOpen_openDoors_opened
        closeDoors_def runs_to_refl)
next
  case False
  show ?thesis
    apply (rule runs_to_step)
    apply (rule runs_to_step)
    using False
    by (simp add: Let_def closeDoors_enter_def after_close_def doorsOpen_openDoors_opened
        closeDoors_def runs_to_refl)
qed

lemma runs_to_moveOneFloor:
  "runs_to (moveOneFloor_enter s) (LoopTest, moveOneFloor s)"
proof (cases "doorsOpen s \<or> direction s = Idle \<or> \<not> validFloor s (JInt (targetFloor s))")
  case True
  then show ?thesis
    by (auto simp: moveOneFloor_enter_def moveOneFloor_def runs_to_refl)
next
  case False
  let ?a = "s\<lparr>currentFloor := targetFloor s\<rparr>"
  have e: "moveOneFloor_enter s = (TravelSleep (targetFloor s), s)"
    using False by (simp add: moveOneFloor_enter_def)
  have c: "doorsOpen ?a = False" using False by simp
  show ?thesis
  proof (cases "shouldOpen ?a")
    case True
    have m: "moveOneFloor s = closeDoors (openDoors_opened ?a)"
      using False True by (simp add: moveOneFloor_def Let_def openDoors_def)
    have "loop_step (moveOneFloor_enter s) = (OpenSleep, ?a)"
      using True c by (simp add: e moveOneFloor_arrive_def Let_def openDoors_enter_def)
    then show ?thesis
      using runs_to_open_sleep [of ?a] m by - (rule runs_to_step, simp)
  next
    case no: False
    have m: "moveOneFloor s = ?a"
      using False no by (simp add: moveOneFloor_def Let_def)
    have "loop_step (moveOneFloor_enter s) = (LoopTest, ?a)"
      using no by (simp add: e moveOneFloor_arrive_def Let_def)
    then show ?thesis
      using m by - (rule runs_to_step, simp add: runs_to_refl)
  qed
qed

lemma runs_to_loopBody:
  assumes "running s"
  shows "runs_to (LoopTest, s) (LoopTest, loopBody s)"
proof -
  let ?a = "s\<lparr>direction := decideDirection s\<rparr>"
  show ?thesis
  proof (cases "decideDirection s = Idle")
    case True
    then have "loop_step (loop_step (LoopTest, s)) = (LoopTest, loopBody s)"
      using assms by (simp add: loop_test_def loopBody_def Let_def)
    then show ?thesis
      by - (rule runs_to_step, rule runs_to_step, simp add: runs_to_refl)
  next
    case False
    show ?thesis
    proof (cases "doorsOpen s")
      case True
      have b: "loopBody s = moveOneFloor (closeDoors ?a)"
        using False True by (simp add: loopBody_def Let_def)
      have "loop_step (loop_step (LoopTest, s)) = moveOneFloor_enter (closeDoors ?a)"
        using assms False True
        by (simp add: loop_test_def Let_def closeDoors_enter_def after_close_def closeDoors_def)
      then show ?thesis
        using runs_to_moveOneFloor [of "closeDoors ?a"] b
        by - (rule runs_to_step, rule runs_to_step, simp)
    next
      case closed: False
      have b: "loopBody s = moveOneFloor ?a"
        using False closed by (simp add: loopBody_def Let_def)
      have "loop_step (LoopTest, s) = moveOneFloor_enter ?a"
        using assms False closed by (simp add: loop_test_def Let_def)
      then show ?thesis
        using runs_to_moveOneFloor [of ?a] b by - (rule runs_to_step, simp)
    qed
  qed
qed

end
